theory Spec2Isabelle
  imports Complex_Main
begin

section \<open>The grid model of \<^verbatim>\<open>src/main.ts\<close>\<close>

text \<open>
  The program is a TypeScript maze visualiser. Its algorithmic core is the class
  \<^verbatim>\<open>Maze\<close> and the three classes \<^verbatim>\<open>BFS\<close>, \<^verbatim>\<open>GBFS\<close> and \<^verbatim>\<open>ASTAR\<close>, each with a
  method \<^verbatim>\<open>step\<close>. Canvas drawing, audio and timers (\<^verbatim>\<open>canvas_refresh\<close>,
  \<^verbatim>\<open>canvas_draw_path\<close>, \<^verbatim>\<open>playNote\<close>, \<^verbatim>\<open>console.log\<close>, \<^verbatim>\<open>clearInterval\<close>) change no
  field that the search reads and are left out.

  Coordinates are whole JavaScript numbers, modelled as \<open>int\<close>. Priorities are
  JavaScript doubles computed with \<^verbatim>\<open>Math.sqrt\<close>; they are modelled as real numbers.
\<close>

datatype MazeCell = FLOOR | WALL | ACTIVE | EXPLORED

text \<open>\<^verbatim>\<open>type Coordinate = { x: number; y: number }\<close>. The fields \<^verbatim>\<open>x\<close> and \<^verbatim>\<open>y\<close> are named
  \<open>coord_x\<close> and \<open>coord_y\<close>.\<close>

datatype Coordinate = Coordinate (coord_x: int) (coord_y: int)

definition manhattan_distance :: "Coordinate \<Rightarrow> Coordinate \<Rightarrow> int" where
  "manhattan_distance coord1 coord2 =
     \<bar>coord_x coord1 - coord_x coord2\<bar> + \<bar>coord_y coord1 - coord_y coord2\<bar>"

definition euclidean_distance :: "Coordinate \<Rightarrow> Coordinate \<Rightarrow> real" where
  "euclidean_distance coord1 coord2 =
     sqrt (of_int ((coord_x coord1 - coord_x coord2) * (coord_x coord1 - coord_x coord2)
                 + (coord_y coord1 - coord_y coord2) * (coord_y coord1 - coord_y coord2)))"

text \<open>
  \<^verbatim>\<open>coord1?.x === coord2?.x && coord1?.y === coord2?.y\<close>: an undefined coordinate has
  undefined fields, and \<^verbatim>\<open>undefined === undefined\<close> holds.
\<close>

definition coordinate_equals :: "Coordinate option \<Rightarrow> Coordinate option \<Rightarrow> bool" where
  "coordinate_equals coord1 coord2 =
     (map_option coord_x coord1 = map_option coord_x coord2 \<and>
      map_option coord_y coord1 = map_option coord_y coord2)"

text \<open>
  \<^verbatim>\<open>coordinate_random\<close> calls \<^verbatim>\<open>Math.random()\<close> twice, for \<open>x\<close> and then for \<open>y\<close>; the
  two results are the parameters \<open>r1\<close> and \<open>r2\<close>.
\<close>

definition coordinate_random :: "real \<Rightarrow> real \<Rightarrow> int \<Rightarrow> int \<Rightarrow> Coordinate" where
  "coordinate_random r1 r2 x y = Coordinate \<lfloor>r1 * of_int x\<rfloor> \<lfloor>r2 * of_int y\<rfloor>"

text \<open>\<^verbatim>\<open>type searched_cell = { coord; prev_cell: searched_cell | undefined }\<close>. A node is
  never mutated after its creation, so the shared reference is a value.\<close>

datatype searched_cell = searched_cell (coord: Coordinate) (prev_cell: "searched_cell option")

text \<open>
  A JavaScript array is modelled by its index map: reading an index that holds nothing
  gives \<^verbatim>\<open>undefined\<close> (\<open>None\<close>), writing to any index stores the value there (the array
  grows). \<open>array_of xs\<close> is the array that results from pushing the elements of \<open>xs\<close>
  onto an empty array.
\<close>

type_synonym 'a array = "int \<Rightarrow> 'a option"

definition array_of :: "'a list \<Rightarrow> 'a array" where
  "array_of xs = (\<lambda>i. if 0 \<le> i \<and> i < int (length xs) then Some (xs ! nat i) else None)"

text \<open>Reading a property of \<^verbatim>\<open>undefined\<close> throws a \<^verbatim>\<open>TypeError\<close>.\<close>

datatype error = TypeError

definition bind_error :: "error + 'a \<Rightarrow> ('a \<Rightarrow> error + 'b) \<Rightarrow> error + 'b" where
  "bind_error r f = (case r of Inl e \<Rightarrow> Inl e | Inr v \<Rightarrow> f v)"

text \<open>The class \<^verbatim>\<open>Maze\<close>. The field \<^verbatim>\<open>end\<close> is named \<open>end'\<close>.\<close>

record Maze =
  height :: int
  width :: int
  maze :: "MazeCell array array"
  start :: "Coordinate option"
  end' :: "Coordinate option"

definition floor_likelihood :: real where
  "floor_likelihood = 0.6"

text \<open>\<^verbatim>\<open>this.maze[coordinate.x][coordinate.y]\<close>: throws when column \<open>x\<close> does not exist,
  gives \<^verbatim>\<open>undefined\<close> when the column has nothing at \<open>y\<close>.\<close>

definition get_cell_type :: "Maze \<Rightarrow> Coordinate \<Rightarrow> error + MazeCell option" where
  "get_cell_type m coordinate =
     (case maze m (coord_x coordinate) of
        None \<Rightarrow> Inl TypeError
      | Some column \<Rightarrow> Inr (column (coord_y coordinate)))"

definition set_cell_type :: "Maze \<Rightarrow> Coordinate \<Rightarrow> MazeCell \<Rightarrow> error + Maze" where
  "set_cell_type m coordinate cell_type =
     (case maze m (coord_x coordinate) of
        None \<Rightarrow> Inl TypeError
      | Some column \<Rightarrow>
          Inr (m\<lparr>maze := (maze m)(coord_x coordinate \<mapsto> column(coord_y coordinate \<mapsto> cell_type))\<rparr>))"

definition get_neighboring_coordinates :: "Maze \<Rightarrow> Coordinate \<Rightarrow> Coordinate list" where
  "get_neighboring_coordinates m coordinate =
     (if coord_x coordinate + 1 \<le> width m - 1 then [Coordinate (coord_x coordinate + 1) (coord_y coordinate)] else []) @
     (if coord_y coordinate + 1 \<le> width m - 1 then [Coordinate (coord_x coordinate) (coord_y coordinate + 1)] else []) @
     (if coord_x coordinate - 1 \<ge> 0 then [Coordinate (coord_x coordinate - 1) (coord_y coordinate)] else []) @
     (if coord_y coordinate - 1 \<ge> 0 then [Coordinate (coord_x coordinate) (coord_y coordinate - 1)] else [])"

text \<open>
  \<^verbatim>\<open>regenerate\<close>. The sequence \<open>rnd\<close> holds the results of the successive calls of
  \<^verbatim>\<open>Math.random()\<close>: two for \<^verbatim>\<open>start\<close>, two for \<^verbatim>\<open>end\<close>, then one for each cell,
  column after column. \<open>random_column rnd k n\<close> is the inner loop, pushing \<open>n\<close> cells
  drawn from position \<open>k\<close> on.
\<close>

primrec random_column :: "(nat \<Rightarrow> real) \<Rightarrow> nat \<Rightarrow> nat \<Rightarrow> MazeCell list" where
  "random_column rnd k 0 = []"
| "random_column rnd k (Suc n) =
     (if rnd k < floor_likelihood then FLOOR else WALL) # random_column rnd (Suc k) n"

definition regenerate :: "(nat \<Rightarrow> real) \<Rightarrow> Maze \<Rightarrow> error + Maze" where
  "regenerate rnd m =
     (let start_coordinate = coordinate_random (rnd 0) (rnd 1) (width m) (height m);
          end_coordinate = coordinate_random (rnd 2) (rnd 3) (width m) (height m);
          columns = map (\<lambda>i. array_of (random_column rnd (4 + i * nat (height m)) (nat (height m))))
                      [0..<nat (width m)];
          m1 = m\<lparr>start := Some start_coordinate, end' := Some end_coordinate,
                 maze := array_of columns\<rparr>
      in bind_error (set_cell_type m1 start_coordinate EXPLORED)
           (\<lambda>m2. set_cell_type m2 end_coordinate FLOOR))"

text \<open>The constructor: \<^verbatim>\<open>new Maze({grid_width, grid_height})\<close>.\<close>

definition new_Maze :: "(nat \<Rightarrow> real) \<Rightarrow> int \<Rightarrow> int \<Rightarrow> error + Maze" where
  "new_Maze rnd grid_width grid_height =
     regenerate rnd \<lparr>height = grid_height, width = grid_width, maze = array_of [],
                     start = None, end' = None\<rparr>"

text \<open>The state of a cell as an observer reads it (\<^verbatim>\<open>maze.maze[i][j]\<close>), \<open>None\<close> where
  the grid holds nothing.\<close>

definition cell_at :: "Maze \<Rightarrow> Coordinate \<Rightarrow> MazeCell option" where
  "cell_at m c = (case maze m (coord_x c) of None \<Rightarrow> None | Some column \<Rightarrow> column (coord_y c))"

definition in_bounds :: "Maze \<Rightarrow> Coordinate \<Rightarrow> bool" where
  "in_bounds m c = (0 \<le> coord_x c \<and> coord_x c < width m \<and> 0 \<le> coord_y c \<and> coord_y c < height m)"

section \<open>The search strategies\<close>

text \<open>
  The abstract class \<^verbatim>\<open>MazeSolvingAlgorithm\<close>. \<open>is_paused\<close> is \<^verbatim>\<open>config.is_paused\<close>, the
  only field of the configuration that \<^verbatim>\<open>step\<close> reads; \<open>grid\<close> is the field \<^verbatim>\<open>maze\<close>
  (the methods read the global \<^verbatim>\<open>maze\<close>, the same object while the strategy is in use).
\<close>

record MazeSolvingAlgorithm =
  is_paused :: bool
  grid :: Maze
  search_ended :: bool
  final_searched_cell :: "searched_cell option"
  interval_code :: "nat option"

text \<open>\<^verbatim>\<open>visualize\<close> unpauses and stores the code of the timer it starts.\<close>

definition visualize :: "nat \<Rightarrow> 'a MazeSolvingAlgorithm_scheme \<Rightarrow> 'a MazeSolvingAlgorithm_scheme" where
  "visualize code alg = alg\<lparr>is_paused := False, interval_code := Some code\<rparr>"

text \<open>
  The loop that the three \<^verbatim>\<open>step\<close> methods run once the goal is found: every neighbour
  that is \<^verbatim>\<open>ACTIVE\<close> becomes \<^verbatim>\<open>FLOOR\<close> again.
\<close>

fun revert_active :: "Maze \<Rightarrow> Coordinate list \<Rightarrow> error + Maze" where
  "revert_active m [] = Inr m"
| "revert_active m (adjacent_position # rest) =
     bind_error (get_cell_type m adjacent_position) (\<lambda>t.
       if t = Some ACTIVE
       then bind_error (set_cell_type m adjacent_position FLOOR) (\<lambda>m'. revert_active m' rest)
       else revert_active m rest)"

subsection \<open>BFS\<close>

text \<open>
  \<open>iterator\<close> is the array iterator: the elements it has not yet returned. The array
  it runs over is never pushed to after the iterator is made, because
  \<^verbatim>\<open>next_search_frontier\<close> is assigned a fresh array at that moment.
\<close>

record BFS = MazeSolvingAlgorithm +
  next_search_frontier :: "searched_cell list"
  iterator :: "searched_cell list"

text \<open>\<^verbatim>\<open>iterator.next()\<close>: the value, the flag \<^verbatim>\<open>done\<close>, and the iterator afterwards.\<close>

fun iterator_next :: "'a list \<Rightarrow> 'a option \<times> bool \<times> 'a list" where
  "iterator_next [] = (None, True, [])"
| "iterator_next (v # rest) = (Some v, False, rest)"

text \<open>
  The field initialisers run first: the iterator is made over the empty array, and the
  constructor then replaces \<^verbatim>\<open>next_search_frontier\<close>.
\<close>

definition new_BFS :: "bool \<Rightarrow> Maze \<Rightarrow> BFS" where
  "new_BFS paused m =
     \<lparr>is_paused = paused, grid = m, search_ended = False, final_searched_cell = None,
      interval_code = None,
      next_search_frontier = (case start m of None \<Rightarrow> [] | Some s \<Rightarrow> [searched_cell s None]),
      iterator = []\<rparr>"

text \<open>The loop over the neighbours in \<^verbatim>\<open>BFS.step\<close>; it returns the grid, the found node
  and \<^verbatim>\<open>next_search_frontier\<close>.\<close>

fun bfs_neighbors ::
  "Maze \<Rightarrow> searched_cell \<Rightarrow> searched_cell option \<Rightarrow> searched_cell list \<Rightarrow> Coordinate list
   \<Rightarrow> error + (Maze \<times> searched_cell option \<times> searched_cell list)" where
  "bfs_neighbors m position final frontier [] = Inr (m, final, frontier)"
| "bfs_neighbors m position final frontier (adjacent_position # rest) =
     (if coordinate_equals (end' m) (Some adjacent_position)
      then Inr (m, Some (searched_cell adjacent_position (Some position)), frontier)
      else bind_error (get_cell_type m adjacent_position) (\<lambda>t.
        if t = Some FLOOR
        then bind_error (set_cell_type m adjacent_position ACTIVE) (\<lambda>m'.
               bfs_neighbors m' position final
                 (frontier @ [searched_cell adjacent_position (Some position)]) rest)
        else bfs_neighbors m position final frontier rest))"

definition bfs_step :: "BFS \<Rightarrow> error + BFS" where
  "bfs_step s =
     (if interval_code s = None then Inr s
      else if is_paused s then Inr s
      else
        (case iterator_next (iterator s) of (value1, done, iterator1) \<Rightarrow>
          let s1 = s\<lparr>iterator := iterator1\<rparr>;
              (s2, position_opt) =
                (if done
                 then
                   (let s1a = (if next_search_frontier s1 = [] then s1\<lparr>search_ended := True\<rparr> else s1)
                    in case iterator_next (next_search_frontier s1a) of (value2, done2, iterator2) \<Rightarrow>
                         (s1a\<lparr>iterator := iterator2, next_search_frontier := []\<rparr>, value2))
                 else (s1, value1))
          in
            if \<not> search_ended s2
            then
              (case position_opt of
                 None \<Rightarrow> Inl TypeError
               | Some position \<Rightarrow>
                   bind_error (set_cell_type (grid s2) (coord position) EXPLORED) (\<lambda>m1.
                   bind_error (bfs_neighbors m1 position (final_searched_cell s2)
                                 (next_search_frontier s2)
                                 (get_neighboring_coordinates m1 (coord position))) (\<lambda>(m2, final, frontier).
                   bind_error (if final \<noteq> None
                               then revert_active m2 (get_neighboring_coordinates m2 (coord position))
                               else Inr m2) (\<lambda>m3.
                   Inr (s2\<lparr>grid := m3, final_searched_cell := final,
                           next_search_frontier := frontier,
                           search_ended := (if final \<noteq> None then True else search_ended s2)\<rparr>)))))
            else Inr s2))"

subsection \<open>GBFS and A*\<close>

record priority_queue_element =
  priority :: real
  cell :: searched_cell

text \<open>The field \<^verbatim>\<open>length\<close> is named \<open>length_pq\<close>.\<close>

record priority_queue_length_element = priority_queue_element +
  length_pq :: int

text \<open>Both classes have the one field \<^verbatim>\<open>search_frontier\<close>, an array of their element type.\<close>

record 'e best_first = MazeSolvingAlgorithm +
  search_frontier :: "'e list"

type_synonym GBFS = "priority_queue_element best_first"

type_synonym ASTAR = "priority_queue_length_element best_first"

text \<open>
  The inner loop that finds \<^verbatim>\<open>index_to_insert\<close>: it counts the elements before the first
  one whose priority is strictly greater. \<^verbatim>\<open>splice(index, 0, element)\<close> inserts there.
\<close>

fun index_to_insert :: "real \<Rightarrow> 'a priority_queue_element_scheme list \<Rightarrow> nat" where
  "index_to_insert p [] = 0"
| "index_to_insert p (element # rest) =
     (if priority element > p then 0 else Suc (index_to_insert p rest))"

definition splice :: "nat \<Rightarrow> 'a \<Rightarrow> 'a list \<Rightarrow> 'a list" where
  "splice i v xs = take i xs @ [v] @ drop i xs"

definition new_GBFS :: "bool \<Rightarrow> Maze \<Rightarrow> GBFS" where
  "new_GBFS paused m =
     \<lparr>is_paused = paused, grid = m, search_ended = False, final_searched_cell = None,
      interval_code = None,
      search_frontier =
        (case (start m, end' m) of
           (Some s, Some e) \<Rightarrow> [\<lparr>priority = euclidean_distance s e, cell = searched_cell s None\<rparr>]
         | _ \<Rightarrow> [])\<rparr>"

text \<open>The loop over the neighbours in \<^verbatim>\<open>GBFS.step\<close>; \<open>e\<close> is \<^verbatim>\<open>maze.end\<close>, which the
  guard at the head of \<^verbatim>\<open>step\<close> has found defined.\<close>

fun gbfs_neighbors ::
  "Coordinate \<Rightarrow> Maze \<Rightarrow> searched_cell \<Rightarrow> searched_cell option \<Rightarrow> priority_queue_element list
   \<Rightarrow> Coordinate list \<Rightarrow> error + (Maze \<times> searched_cell option \<times> priority_queue_element list)" where
  "gbfs_neighbors e m position final frontier [] = Inr (m, final, frontier)"
| "gbfs_neighbors e m position final frontier (adjacent_position # rest) =
     (if coordinate_equals (end' m) (Some adjacent_position)
      then Inr (m, Some (searched_cell adjacent_position (Some position)), frontier)
      else bind_error (get_cell_type m adjacent_position) (\<lambda>t.
        if t = Some FLOOR
        then bind_error (set_cell_type m adjacent_position ACTIVE) (\<lambda>m'.
               let p = euclidean_distance adjacent_position e
               in gbfs_neighbors e m' position final
                    (splice (index_to_insert p frontier)
                       \<lparr>priority = p, cell = searched_cell adjacent_position (Some position)\<rparr>
                       frontier) rest)
        else gbfs_neighbors e m position final frontier rest))"

definition gbfs_step :: "GBFS \<Rightarrow> error + GBFS" where
  "gbfs_step s =
     (case end' (grid s) of
        None \<Rightarrow> Inr s
      | Some e \<Rightarrow>
          if interval_code s = None then Inr s
          else if is_paused s then Inr s
          else
            (case search_frontier s of
               [] \<Rightarrow> Inr s
             | frontier_element # shifted \<Rightarrow>
                 let position = cell frontier_element in
                   bind_error (set_cell_type (grid s) (coord position) EXPLORED) (\<lambda>m1.
                   bind_error (gbfs_neighbors e m1 position (final_searched_cell s) shifted
                                 (get_neighboring_coordinates m1 (coord position))) (\<lambda>(m2, final, frontier).
                   bind_error (if final \<noteq> None
                               then revert_active m2 (get_neighboring_coordinates m2 (coord position))
                               else Inr m2) (\<lambda>m3.
                   Inr (s\<lparr>grid := m3, final_searched_cell := final,
                          search_frontier := frontier,
                          search_ended := (if frontier = [] then True
                                           else if final \<noteq> None then True
                                           else search_ended s)\<rparr>))))))"

definition new_ASTAR :: "bool \<Rightarrow> Maze \<Rightarrow> ASTAR" where
  "new_ASTAR paused m =
     \<lparr>is_paused = paused, grid = m, search_ended = False, final_searched_cell = None,
      interval_code = None,
      search_frontier =
        (case (start m, end' m) of
           (Some s, Some e) \<Rightarrow>
             [\<lparr>priority = euclidean_distance s e, cell = searched_cell s None, length_pq = 0\<rparr>]
         | _ \<Rightarrow> [])\<rparr>"

definition astar_dist :: "Maze \<Rightarrow> priority_queue_length_element \<Rightarrow> Coordinate \<Rightarrow> real" where
  "astar_dist m current_cell next_coord =
     (case end' m of
        None \<Rightarrow> 0
      | Some e \<Rightarrow> of_int (length_pq current_cell) + euclidean_distance e next_coord)"

fun astar_neighbors ::
  "Maze \<Rightarrow> priority_queue_length_element \<Rightarrow> searched_cell option
   \<Rightarrow> priority_queue_length_element list \<Rightarrow> Coordinate list
   \<Rightarrow> error + (Maze \<times> searched_cell option \<times> priority_queue_length_element list)" where
  "astar_neighbors m frontier_element final frontier [] = Inr (m, final, frontier)"
| "astar_neighbors m frontier_element final frontier (adjacent_position # rest) =
     (if coordinate_equals (end' m) (Some adjacent_position)
      then Inr (m, Some (searched_cell adjacent_position (Some (cell frontier_element))), frontier)
      else bind_error (get_cell_type m adjacent_position) (\<lambda>t.
        if t = Some FLOOR
        then bind_error (set_cell_type m adjacent_position ACTIVE) (\<lambda>m'.
               let p = astar_dist m' frontier_element adjacent_position
               in astar_neighbors m' frontier_element final
                    (splice (index_to_insert p frontier)
                       \<lparr>priority = p,
                        cell = searched_cell adjacent_position (Some (cell frontier_element)),
                        length_pq = length_pq frontier_element + 1\<rparr>
                       frontier) rest)
        else astar_neighbors m frontier_element final frontier rest))"

definition astar_step :: "ASTAR \<Rightarrow> error + ASTAR" where
  "astar_step s =
     (if end' (grid s) = None \<or> interval_code s = None then Inr s
      else if is_paused s then Inr s
      else
        (case search_frontier s of
           [] \<Rightarrow> Inr s
         | frontier_element # shifted \<Rightarrow>
             let position = cell frontier_element in
               bind_error (set_cell_type (grid s) (coord position) EXPLORED) (\<lambda>m1.
               bind_error (astar_neighbors m1 frontier_element (final_searched_cell s) shifted
                             (get_neighboring_coordinates m1 (coord position))) (\<lambda>(m2, final, frontier).
               bind_error (if final \<noteq> None
                           then revert_active m2 (get_neighboring_coordinates m2 (coord position))
                           else Inr m2) (\<lambda>m3.
               Inr (s\<lparr>grid := m3, final_searched_cell := final,
                      search_frontier := frontier,
                      search_ended := (if frontier = [] then True
                                       else if final \<noteq> None then True
                                       else search_ended s)\<rparr>))))))"

subsection \<open>Runs and paths\<close>

text \<open>\<open>steps step n s\<close> calls \<^verbatim>\<open>step\<close> \<open>n\<close> times; a call that throws ends it with the error.\<close>

primrec steps :: "('s \<Rightarrow> error + 's) \<Rightarrow> nat \<Rightarrow> 's \<Rightarrow> error + 's" where
  "steps step 0 s = Inr s"
| "steps step (Suc n) s = bind_error (step s) (steps step n)"

text \<open>
  Modelled from the spec: the path builder \<^verbatim>\<open>reconstruct\<close> of section 4.6, which the
  source does not have as a function (\<^verbatim>\<open>canvas_draw_path\<close> walks the same \<^verbatim>\<open>prev_cell\<close>
  links while it draws). \<open>chain\<close> lists the coordinates from the node back to the root,
  \<open>reconstruct\<close> from the root to the node, and \<open>edge_length\<close> counts the links.
\<close>

fun chain :: "searched_cell \<Rightarrow> Coordinate list" where
  "chain (searched_cell c p) = c # (case p of None \<Rightarrow> [] | Some q \<Rightarrow> chain q)"

definition reconstruct :: "searched_cell \<Rightarrow> Coordinate list" where
  "reconstruct node = rev (chain node)"

definition edge_length :: "searched_cell \<Rightarrow> nat" where
  "edge_length node = length (chain node) - 1"

section \<open>Definitions for the verification\<close>

text \<open>A grid for examples: \<open>columns\<close> lists the columns, each from \<open>y = 0\<close> on.\<close>

definition mk_maze :: "int \<Rightarrow> int \<Rightarrow> MazeCell list list \<Rightarrow> Coordinate \<Rightarrow> Coordinate \<Rightarrow> Maze" where
  "mk_maze w h columns s e =
     \<lparr>height = h, width = w, maze = array_of (map array_of columns), start = Some s, end' = Some e\<rparr>"

definition has_column :: "Maze \<Rightarrow> int \<Rightarrow> bool" where
  "has_column m i = (maze m i \<noteq> None)"

text \<open>The write of \<^verbatim>\<open>set_cell_type\<close> where it does not throw.\<close>

definition put :: "Maze \<Rightarrow> Coordinate \<Rightarrow> MazeCell \<Rightarrow> Maze" where
  "put m c v = m\<lparr>maze := (maze m)(coord_x c \<mapsto> (the (maze m (coord_x c)))(coord_y c \<mapsto> v))\<rparr>"

text \<open>
  What one pass over the neighbours discovers: the neighbours before the first one that
  is the goal \<open>e\<close>, as far as they are \<^verbatim>\<open>FLOOR\<close> when the loop reaches them. \<open>mark\<close> makes
  them \<^verbatim>\<open>ACTIVE\<close>, \<open>revert\<close> is the effect of \<open>revert_active\<close>.
\<close>

fun discover :: "(Coordinate \<Rightarrow> MazeCell option) \<Rightarrow> Coordinate \<Rightarrow> Coordinate list \<Rightarrow> Coordinate list" where
  "discover g e [] = []"
| "discover g e (a # rest) =
     (if a = e then []
      else if g a = Some FLOOR then a # discover (g(a := Some ACTIVE)) e rest
      else discover g e rest)"

definition mark :: "Maze \<Rightarrow> Coordinate list \<Rightarrow> Maze" where
  "mark m ds = fold (\<lambda>a m'. put m' a ACTIVE) ds m"

definition revert :: "Maze \<Rightarrow> Coordinate list \<Rightarrow> Maze" where
  "revert m ns = fold (\<lambda>a m'. if cell_at m' a = Some ACTIVE then put m' a FLOOR else m') ns m"

text \<open>The insertion that \<^verbatim>\<open>GBFS.step\<close> and \<^verbatim>\<open>ASTAR.step\<close> perform for one new element.\<close>

definition insert_by_priority ::
  "'a priority_queue_element_scheme \<Rightarrow> 'a priority_queue_element_scheme list
   \<Rightarrow> 'a priority_queue_element_scheme list" where
  "insert_by_priority el frontier = splice (index_to_insert (priority el) frontier) el frontier"

text \<open>The elements that the two loops build for a discovered cell \<open>a\<close>.\<close>

definition gbfs_element :: "Coordinate \<Rightarrow> searched_cell \<Rightarrow> Coordinate \<Rightarrow> priority_queue_element" where
  "gbfs_element e position a =
     \<lparr>priority = euclidean_distance a e, cell = searched_cell a (Some position)\<rparr>"

definition astar_element ::
  "Coordinate \<Rightarrow> priority_queue_length_element \<Rightarrow> Coordinate \<Rightarrow> priority_queue_length_element" where
  "astar_element e fe a =
     \<lparr>priority = of_int (length_pq fe) + euclidean_distance e a,
      cell = searched_cell a (Some (cell fe)), length_pq = length_pq fe + 1\<rparr>"

text \<open>The 2 by 2 grid of \<^verbatim>\<open>FLOOR\<close> cells with start \<open>(0, 0)\<close> and end \<open>(1, 1)\<close>.\<close>

definition example_grid :: Maze where
  "example_grid = mk_maze 2 2 [[FLOOR, FLOOR], [FLOOR, FLOOR]] (Coordinate 0 0) (Coordinate 1 1)"

text \<open>
  A 6 by 5 grid, start \<open>(5, 0)\<close>, end \<open>(0, 2)\<close>; each row below is a column of the grid,
  from \<open>y = 0\<close> on.
\<close>

definition detour_grid :: Maze where
  "detour_grid = mk_maze 6 5
     [[WALL, WALL, FLOOR, FLOOR, FLOOR],
      [WALL, WALL, WALL, WALL, FLOOR],
      [FLOOR, FLOOR, FLOOR, WALL, FLOOR],
      [FLOOR, WALL, FLOOR, FLOOR, FLOOR],
      [FLOOR, WALL, FLOOR, WALL, WALL],
      [FLOOR, FLOOR, FLOOR, WALL, WALL]] (Coordinate 5 0) (Coordinate 0 2)"

text \<open>The shortest path of \<open>detour_grid\<close>, of 11 edges.\<close>

definition detour_shortest :: "Coordinate list" where
  "detour_shortest =
     [Coordinate 5 0, Coordinate 5 1, Coordinate 5 2, Coordinate 4 2, Coordinate 3 2,
      Coordinate 3 3, Coordinate 3 4, Coordinate 2 4, Coordinate 1 4, Coordinate 0 4,
      Coordinate 0 3, Coordinate 0 2]"

text \<open>
  The grids that the strategies are made for: positive width and height, a column for
  every \<open>x\<close> in range and a cell for every coordinate in bounds, start and end in bounds,
  and the start not a wall (section 3 of the specification).
\<close>

definition columns_ok :: "Maze \<Rightarrow> bool" where
  "columns_ok m = (\<forall>i. has_column m i = (0 \<le> i \<and> i < width m))"

definition well_formed :: "Maze \<Rightarrow> bool" where
  "well_formed m =
     (0 < width m \<and> 0 < height m \<and> columns_ok m \<and>
      (\<forall>c. (cell_at m c \<noteq> None) = in_bounds m c) \<and>
      (\<exists>s e. start m = Some s \<and> end' m = Some e \<and> in_bounds m s \<and> in_bounds m e \<and>
             cell_at m s \<noteq> Some WALL))"

text \<open>
  One expansion, as the three \<^verbatim>\<open>step\<close> methods perform it on the cell \<open>c\<close> of the element they
  process: \<open>children\<close> are the cells it discovers, \<open>expanded\<close> is the grid afterwards
  (\<open>found\<close> tells whether \<^verbatim>\<open>final_searched_cell\<close> is defined after the loop).
\<close>

definition children :: "Maze \<Rightarrow> Coordinate \<Rightarrow> Coordinate \<Rightarrow> Coordinate list" where
  "children m e c = discover (cell_at (put m c EXPLORED)) e (get_neighboring_coordinates m c)"

definition expanded :: "Maze \<Rightarrow> Coordinate \<Rightarrow> Coordinate \<Rightarrow> bool \<Rightarrow> Maze" where
  "expanded m e c found =
     (if found
      then revert (mark (put m c EXPLORED) (children m e c)) (get_neighboring_coordinates m c)
      else mark (put m c EXPLORED) (children m e c))"

text \<open>
  The driver: it calls \<^verbatim>\<open>step\<close> again and again and stops when \<^verbatim>\<open>search_ended\<close> holds (the
  strategies clear the timer then). \<open>run step n s\<close> is the state after at most \<open>n\<close> calls.
\<close>

primrec run ::
  "('a MazeSolvingAlgorithm_scheme \<Rightarrow> error + 'a MazeSolvingAlgorithm_scheme) \<Rightarrow> nat
   \<Rightarrow> 'a MazeSolvingAlgorithm_scheme \<Rightarrow> error + 'a MazeSolvingAlgorithm_scheme" where
  "run step 0 s = Inr s"
| "run step (Suc n) s = (if search_ended s then Inr s else bind_error (step s) (run step n))"

text \<open>
  The element that a call of \<^verbatim>\<open>step\<close> processes (whose cell it marks \<^verbatim>\<open>EXPLORED\<close> and whose
  neighbours it visits), if the call processes one.
\<close>

definition bfs_position :: "BFS \<Rightarrow> searched_cell option" where
  "bfs_position s =
     (if interval_code s = None \<or> is_paused s \<or> search_ended s then None
      else case iterator s @ next_search_frontier s of [] \<Rightarrow> None | p # rest \<Rightarrow> Some p)"

definition best_first_position :: "'a priority_queue_element_scheme best_first \<Rightarrow> searched_cell option" where
  "best_first_position s =
     (if end' (grid s) = None \<or> interval_code s = None \<or> is_paused s then None
      else case search_frontier s of [] \<Rightarrow> None | fe # rest \<Rightarrow> Some (cell fe))"

text \<open>The elements processed in a run of at most \<open>n\<close> calls, in order.\<close>

primrec run_positions ::
  "('a MazeSolvingAlgorithm_scheme \<Rightarrow> error + 'a MazeSolvingAlgorithm_scheme)
   \<Rightarrow> ('a MazeSolvingAlgorithm_scheme \<Rightarrow> searched_cell option) \<Rightarrow> nat
   \<Rightarrow> 'a MazeSolvingAlgorithm_scheme \<Rightarrow> searched_cell list" where
  "run_positions step position 0 s = []"
| "run_positions step position (Suc n) s =
     (if search_ended s then []
      else (case position s of None \<Rightarrow> [] | Some p \<Rightarrow> [p]) @
           (case step s of Inl err \<Rightarrow> [] | Inr s' \<Rightarrow> run_positions step position n s'))"

text \<open>
  Paths. \<open>linked\<close>: consecutive cells are 4-neighbours. A \<open>grid_path\<close> leads from the start to
  the end of the grid through cells in bounds, all \<^verbatim>\<open>FLOOR\<close> between its two ends.
\<close>

fun linked :: "Coordinate list \<Rightarrow> bool" where
  "linked [] = True"
| "linked [v] = True"
| "linked (u # v # rest) = (manhattan_distance u v = 1 \<and> linked (v # rest))"

definition grid_path :: "Maze \<Rightarrow> Coordinate list \<Rightarrow> bool" where
  "grid_path m vs =
     (vs \<noteq> [] \<and> Some (hd vs) = start m \<and> Some (last vs) = end' m \<and> linked vs \<and>
      list_all (in_bounds m) vs \<and>
      list_all (\<lambda>c. cell_at m c = Some FLOOR) (butlast (tl vs)))"

text \<open>
  \<open>walk m cs\<close>: read backwards, \<open>cs\<close> leads from the start along the neighbour relation of the
  code through \<^verbatim>\<open>FLOOR\<close> cells other than the end. The chains of the nodes are such lists.
\<close>

fun walk :: "Maze \<Rightarrow> Coordinate list \<Rightarrow> bool" where
  "walk m [] = False"
| "walk m [c] = (start m = Some c)"
| "walk m (c # u # rest) =
     (c \<in> set (get_neighboring_coordinates m u) \<and> cell_at m c = Some FLOOR \<and>
      Some c \<noteq> end' m \<and> walk m (u # rest))"

text \<open>
  The invariant of a search on the grid \<open>m0\<close> it started from, while nothing is found:
  \<open>m\<close> is the grid now, \<open>F\<close> the nodes of the frontier and \<open>X\<close> the cells expanded so far.
\<close>

definition search_inv :: "Maze \<Rightarrow> Maze \<Rightarrow> searched_cell list \<Rightarrow> Coordinate list \<Rightarrow> bool" where
  "search_inv m0 m F X =
     (well_formed m0 \<and> width m = width m0 \<and> height m = height m0 \<and> start m = start m0 \<and> end' m = end' m0 \<and>
      columns_ok m \<and> (\<forall>c. (cell_at m c = None) = (cell_at m0 c = None)) \<and>
      distinct (map coord F @ X) \<and>
      (\<forall>c\<in>set X. cell_at m c = Some EXPLORED) \<and>
      (X = [] \<longrightarrow> cell_at m = cell_at m0 \<and> (\<exists>s. start m0 = Some s \<and> F = [searched_cell s None])) \<and>
      (X \<noteq> [] \<longrightarrow> (\<forall>p\<in>set F. cell_at m (coord p) = Some ACTIVE) \<and> (\<exists>s\<in>set X. start m0 = Some s)) \<and>
      (\<forall>c. c \<notin> set X \<and> c \<notin> coord ` set F \<longrightarrow> cell_at m c = cell_at m0 c) \<and>
      (\<forall>c\<in>set X \<union> coord ` set F. Some c = start m0 \<or> cell_at m0 c = Some FLOOR) \<and>
      (\<forall>c\<in>set X. \<forall>a\<in>set (get_neighboring_coordinates m0 c).
          Some a \<noteq> end' m0 \<and> (cell_at m0 a = Some FLOOR \<longrightarrow> a \<in> set X \<union> coord ` set F)) \<and>
      (\<forall>p\<in>set F. walk m0 (chain p)))"

text \<open>How a step may change the state of a cell (claim C7).\<close>

definition forward :: "MazeCell option \<Rightarrow> MazeCell option \<Rightarrow> bool" where
  "forward t t' =
     (t' = t \<or> (t = Some FLOOR \<and> t' = Some ACTIVE) \<or> (t = Some FLOOR \<and> t' = Some EXPLORED) \<or>
      (t = Some ACTIVE \<and> t' = Some EXPLORED))"

text \<open>
  The outcomes of a search on \<open>m0\<close>. \<open>found_by\<close>: the found node is the end, linked to a
  processed node \<open>p\<close> whose chain is a walk and whose cell has the end among its
  neighbours. \<open>exhausted\<close>: the frontier is empty, and the invariant holds with it.
\<close>

definition found_by :: "Maze \<Rightarrow> searched_cell \<Rightarrow> searched_cell option \<Rightarrow> bool" where
  "found_by m0 p final =
     (\<exists>e. end' m0 = Some e \<and> final = Some (searched_cell e (Some p)) \<and> walk m0 (chain p) \<and>
          e \<in> set (get_neighboring_coordinates m0 (coord p)))"

definition exhausted :: "Maze \<Rightarrow> Maze \<Rightarrow> bool" where
  "exhausted m0 m = (\<exists>X. X \<noteq> [] \<and> search_inv m0 m [] X)"

definition search_result :: "Maze \<Rightarrow> 'a MazeSolvingAlgorithm_scheme \<Rightarrow> bool" where
  "search_result m0 s =
     ((\<exists>p. found_by m0 p (final_searched_cell s)) \<or>
      (final_searched_cell s = None \<and> exhausted m0 (grid s)))"

text \<open>The invariant of \<^verbatim>\<open>GBFS\<close> and \<^verbatim>\<open>ASTAR\<close> between two calls of \<^verbatim>\<open>step\<close>, before the end.\<close>

definition best_first_inv ::
  "Maze \<Rightarrow> 'a priority_queue_element_scheme best_first \<Rightarrow> Coordinate list \<Rightarrow> bool" where
  "best_first_inv m0 s X =
     (interval_code s \<noteq> None \<and> \<not> is_paused s \<and> \<not> search_ended s \<and>
      final_searched_cell s = None \<and> search_frontier s \<noteq> [] \<and>
      search_inv m0 (grid s) (map cell (search_frontier s)) X)"

text \<open>
  A step changes a cell \<open>forward\<close>, or, when it finds the end, resets an \<^verbatim>\<open>ACTIVE\<close>
  neighbour of the cell \<open>c\<close> it processes to \<^verbatim>\<open>FLOOR\<close>.
\<close>

definition step_change :: "Maze \<Rightarrow> Maze \<Rightarrow> bool \<Rightarrow> Coordinate \<Rightarrow> Coordinate \<Rightarrow> bool" where
  "step_change m m' found c a =
     (forward (cell_at m a) (cell_at m' a) \<or>
      (found \<and> cell_at m a = Some ACTIVE \<and> cell_at m' a = Some FLOOR \<and>
       a \<in> set (get_neighboring_coordinates m c)))"

text \<open>
  \<^verbatim>\<open>BFS\<close>. \<open>nearest\<close>: no walk reaches the cell of \<open>p\<close> with fewer cells than the chain of
  \<open>p\<close>. \<open>nearest_to_end\<close>: no walk reaches a cell next to the end with fewer cells than the
  chain of \<open>p\<close>. The invariant adds the levels to \<open>search_inv\<close>: the chains in the
  iterator have \<open>l\<close> cells, those in \<^verbatim>\<open>next_search_frontier\<close> one more, every walk of fewer
  than \<open>l\<close> cells ends in an expanded cell, and every walk of \<open>l\<close> cells ends in an expanded
  cell or in a cell of the iterator.
\<close>

definition nearest :: "Maze \<Rightarrow> searched_cell \<Rightarrow> bool" where
  "nearest m0 p = (\<forall>cs. walk m0 cs \<and> hd cs = coord p \<longrightarrow> length (chain p) \<le> length cs)"

definition nearest_to_end :: "Maze \<Rightarrow> searched_cell \<Rightarrow> bool" where
  "nearest_to_end m0 p =
     (\<forall>cs e. walk m0 cs \<and> end' m0 = Some e \<and> e \<in> set (get_neighboring_coordinates m0 (hd cs))
        \<longrightarrow> length (chain p) \<le> length cs)"

definition bfs_result :: "Maze \<Rightarrow> BFS \<Rightarrow> bool" where
  "bfs_result m0 s =
     ((\<exists>p. found_by m0 p (final_searched_cell s) \<and> nearest_to_end m0 p) \<or>
      (final_searched_cell s = None \<and> exhausted m0 (grid s)))"

definition bfs_inv :: "Maze \<Rightarrow> BFS \<Rightarrow> Coordinate list \<Rightarrow> nat \<Rightarrow> bool" where
  "bfs_inv m0 s X l =
     (interval_code s \<noteq> None \<and> \<not> is_paused s \<and> \<not> search_ended s \<and>
      final_searched_cell s = None \<and>
      search_inv m0 (grid s) (iterator s @ next_search_frontier s) X \<and>
      (\<forall>p\<in>set (iterator s). length (chain p) = l) \<and>
      (\<forall>p\<in>set (next_search_frontier s). length (chain p) = Suc l) \<and>
      (\<forall>cs. walk m0 cs \<and> length cs < l \<longrightarrow> hd cs \<in> set X) \<and>
      (\<forall>cs. walk m0 cs \<and> length cs = l \<longrightarrow> hd cs \<in> set X \<union> coord ` set (iterator s)))"

section \<open>Verification\<close>

subsection \<open>Grid operations without errors\<close>

text \<open>
  Where the column of a coordinate exists, reading and writing do not throw: the write is
  \<open>put\<close>, and \<open>cell_at\<close> reads what \<^verbatim>\<open>get_cell_type\<close> returns.
\<close>

lemma get_cell_type_Inr: "has_column m (coord_x c) \<Longrightarrow> get_cell_type m c = Inr (cell_at m c)"
  by (auto simp: get_cell_type_def cell_at_def has_column_def)

lemma set_cell_type_Inr: "has_column m (coord_x c) \<Longrightarrow> set_cell_type m c v = Inr (put m c v)"
  by (auto simp: set_cell_type_def put_def has_column_def)

lemma cell_at_put: "has_column m (coord_x c) \<Longrightarrow> cell_at (put m c v) = (cell_at m)(c := Some v)"
  by (rule ext) (auto simp: cell_at_def put_def has_column_def Coordinate.expand split: option.splits)

lemma put_fields [simp]:
  "width (put m c v) = width m" "height (put m c v) = height m"
  "start (put m c v) = start m" "end' (put m c v) = end' m"
  by (simp_all add: put_def)

lemma has_column_put [simp]: "has_column m (coord_x c) \<Longrightarrow> has_column (put m c v) i = has_column m i"
  by (auto simp: put_def has_column_def)

lemma coordinate_equals_Some [simp]: "coordinate_equals (Some a) (Some b) = (a = b)"
  by (auto simp: coordinate_equals_def Coordinate.expand)

lemma get_neighboring_coordinates_put [simp]:
  "get_neighboring_coordinates (put m c v) = get_neighboring_coordinates m"
  by (rule ext) (simp add: get_neighboring_coordinates_def)

lemma mark_fields [simp]:
  "width (mark m ds) = width m" "height (mark m ds) = height m"
  "start (mark m ds) = start m" "end' (mark m ds) = end' m"
  by (induction ds arbitrary: m; simp add: mark_def)+

lemma has_column_mark [simp]:
  "\<forall>a\<in>set ds. has_column m (coord_x a) \<Longrightarrow> has_column (mark m ds) i = has_column m i"
  by (induction ds arbitrary: m) (simp_all add: mark_def)

lemma cell_at_mark:
  "\<forall>a\<in>set ds. has_column m (coord_x a) \<Longrightarrow>
   cell_at (mark m ds) c = (if c \<in> set ds then Some ACTIVE else cell_at m c)"
proof (induction ds arbitrary: m)
  case Nil
  then show ?case by (simp add: mark_def)
next
  case (Cons a ds)
  have "mark m (a # ds) = mark (put m a ACTIVE) ds" by (simp add: mark_def)
  then show ?case using Cons by (simp add: cell_at_put)
qed

lemma revert_fields [simp]:
  "width (revert m ns) = width m" "height (revert m ns) = height m"
  "start (revert m ns) = start m" "end' (revert m ns) = end' m"
  by (induction ns arbitrary: m; simp add: revert_def)+

lemma has_column_revert [simp]:
  "\<forall>a\<in>set ns. has_column m (coord_x a) \<Longrightarrow> has_column (revert m ns) i = has_column m i"
  by (induction ns arbitrary: m) (simp_all add: revert_def)

lemma cell_at_revert:
  "\<forall>a\<in>set ns. has_column m (coord_x a) \<Longrightarrow>
   cell_at (revert m ns) c = (if c \<in> set ns \<and> cell_at m c = Some ACTIVE then Some FLOOR else cell_at m c)"
proof (induction ns arbitrary: m)
  case Nil
  then show ?case by (simp add: revert_def)
next
  case (Cons a ns)
  have step: "revert m (a # ns) = revert (if cell_at m a = Some ACTIVE then put m a FLOOR else m) ns"
    by (simp add: revert_def)
  show ?case
  proof (cases "cell_at m a = Some ACTIVE")
    case True
    then show ?thesis using Cons step by (auto simp: cell_at_put)
  next
    case False
    then show ?thesis using Cons step by auto
  qed
qed

lemma revert_active_eq:
  "\<forall>a\<in>set ns. has_column m (coord_x a) \<Longrightarrow> revert_active m ns = Inr (revert m ns)"
proof (induction ns arbitrary: m)
  case Nil
  then show ?case by (simp add: revert_def)
next
  case (Cons a ns)
  have step: "revert m (a # ns) = revert (if cell_at m a = Some ACTIVE then put m a FLOOR else m) ns"
    by (simp add: revert_def)
  show ?case using Cons
    by (simp add: step bind_error_def get_cell_type_Inr set_cell_type_Inr)
qed

subsection \<open>The loops over the neighbours\<close>

lemma discover_subset: "set (discover g e ns) \<subseteq> set ns"
proof (induction ns arbitrary: g)
  case (Cons a ns)
  show ?case using Cons[of g] Cons[of "g(a := Some ACTIVE)"] by (simp del: fun_upd_apply) blast
qed simp

lemma discover_floor: "a \<in> set (discover g e ns) \<Longrightarrow> g a = Some FLOOR \<and> a \<noteq> e"
proof (induction ns arbitrary: g)
  case (Cons b ns)
  show ?case
  proof (cases "b = e")
    case True
    then show ?thesis using Cons.prems by simp
  next
    case ne: False
    show ?thesis
    proof (cases "g b = Some FLOOR")
      case True
      then have "a = b \<or> a \<in> set (discover (g(b := Some ACTIVE)) e ns)"
        using Cons.prems ne by (simp del: fun_upd_apply)
      then show ?thesis
      proof
        assume "a = b"
        then show ?thesis using True ne by simp
      next
        assume "a \<in> set (discover (g(b := Some ACTIVE)) e ns)"
        from Cons.IH[OF this] show ?thesis by (simp split: if_splits)
      qed
    next
      case False
      then show ?thesis using Cons.prems ne Cons.IH[of g] by simp
    qed
  qed
qed simp

lemma discover_distinct: "distinct (discover g e ns)"
proof (induction ns arbitrary: g)
  case (Cons a ns)
  have "a \<notin> set (discover (g(a := Some ACTIVE)) e ns)"
    using discover_floor[of a "g(a := Some ACTIVE)" e ns] by auto
  then show ?case using Cons[of g] Cons[of "g(a := Some ACTIVE)"] by (simp del: fun_upd_apply)
qed simp

lemma discover_complete:
  "e \<notin> set ns \<Longrightarrow> a \<in> set ns \<Longrightarrow> g a = Some FLOOR \<Longrightarrow> a \<in> set (discover g e ns)"
proof (induction ns arbitrary: g)
  case (Cons b ns)
  show ?case
  proof (cases "a = b")
    case True
    then show ?thesis using Cons.prems by auto
  next
    case False
    then have "a \<in> set (discover g e ns)" "a \<in> set (discover (g(b := Some ACTIVE)) e ns)"
      using Cons.prems by (auto intro!: Cons.IH)
    then show ?thesis using Cons.prems by (auto simp del: fun_upd_apply)
  qed
qed simp

lemma bfs_neighbors_eq:
  assumes "\<forall>a\<in>set ns. has_column m (coord_x a)" "end' m = Some e"
  shows "bfs_neighbors m position final frontier ns =
           Inr (mark m (discover (cell_at m) e ns),
                if e \<in> set ns then Some (searched_cell e (Some position)) else final,
                frontier @ map (\<lambda>a. searched_cell a (Some position)) (discover (cell_at m) e ns))"
  using assms
proof (induction ns arbitrary: m frontier)
  case Nil
  then show ?case by (simp add: mark_def)
next
  case (Cons a ns)
  show ?case
  proof (cases "a = e")
    case True
    then show ?thesis using Cons.prems by (simp add: mark_def)
  next
    case ne: False
    show ?thesis
    proof (cases "cell_at m a = Some FLOOR")
      case True
      have m: "mark m (a # discover ((cell_at m)(a := Some ACTIVE)) e ns)
                 = mark (put m a ACTIVE) (discover ((cell_at m)(a := Some ACTIVE)) e ns)"
        by (simp add: mark_def)
      have "bfs_neighbors (put m a ACTIVE) position final
              (frontier @ [searched_cell a (Some position)]) ns =
            Inr (mark (put m a ACTIVE) (discover (cell_at (put m a ACTIVE)) e ns),
                if e \<in> set ns then Some (searched_cell e (Some position)) else final,
                (frontier @ [searched_cell a (Some position)])
                  @ map (\<lambda>a. searched_cell a (Some position)) (discover (cell_at (put m a ACTIVE)) e ns))"
        using Cons.prems by (intro Cons.IH) simp_all
      then show ?thesis using Cons.prems ne True
        by (simp add: bind_error_def get_cell_type_Inr set_cell_type_Inr cell_at_put m)
    next
      case False
      then show ?thesis using Cons ne
        by (simp add: bind_error_def get_cell_type_Inr)
    qed
  qed
qed

subsection \<open>Insertion by priority\<close>

lemma index_to_insert_le: "index_to_insert p xs \<le> length xs"
  by (induction xs) simp_all

lemma index_to_insert_takeWhile:
  "index_to_insert p xs = length (takeWhile (\<lambda>x. priority x \<le> p) xs)"
  by (induction xs) (simp_all add: not_less)

lemma splice_Nil [simp]: "splice 0 v xs = v # xs"
  by (simp add: splice_def)

lemma splice_Suc [simp]: "splice (Suc i) v (x # xs) = x # splice i v xs"
  by (simp add: splice_def)

lemma insert_by_priority_Nil [simp]: "insert_by_priority el [] = [el]"
  by (simp add: insert_by_priority_def)

lemma insert_by_priority_Cons:
  "insert_by_priority el (x # xs) =
     (if priority x > priority el then el # x # xs else x # insert_by_priority el xs)"
  by (simp add: insert_by_priority_def)

lemma set_insert_by_priority [simp]: "set (insert_by_priority el xs) = insert el (set xs)"
  by (induction xs) (auto simp: insert_by_priority_Cons)

lemma length_insert_by_priority [simp]: "length (insert_by_priority el xs) = Suc (length xs)"
  by (induction xs) (auto simp: insert_by_priority_Cons)

lemma sorted_insert_by_priority:
  "sorted (map priority xs) \<Longrightarrow> sorted (map priority (insert_by_priority el xs))"
  by (induction xs) (auto simp: insert_by_priority_Cons)

lemma insert_by_priority_position:
  "insert_by_priority el xs =
     takeWhile (\<lambda>x. priority x \<le> priority el) xs @ el # dropWhile (\<lambda>x. priority x \<le> priority el) xs"
  by (induction xs) (auto simp: insert_by_priority_Cons)

lemma sorted_fold_insert:
  "sorted (map priority xs) \<Longrightarrow> sorted (map priority (fold insert_by_priority els xs))"
  by (induction els arbitrary: xs) (simp_all add: sorted_insert_by_priority)

lemma set_fold_insert [simp]: "set (fold insert_by_priority els xs) = set els \<union> set xs"
  by (induction els arbitrary: xs) auto

lemma length_fold_insert [simp]: "length (fold insert_by_priority els xs) = length els + length xs"
  by (induction els arbitrary: xs) auto

lemma fold_insert_map:
  "fold (\<lambda>a. insert_by_priority (f a)) ds xs = fold insert_by_priority (map f ds) xs"
  by (induction ds arbitrary: xs) simp_all

lemma gbfs_neighbors_eq:
  assumes "\<forall>a\<in>set ns. has_column m (coord_x a)" "end' m = Some e"
  shows "gbfs_neighbors e m position final frontier ns =
           Inr (mark m (discover (cell_at m) e ns),
                if e \<in> set ns then Some (searched_cell e (Some position)) else final,
                fold insert_by_priority (map (gbfs_element e position) (discover (cell_at m) e ns)) frontier)"
  using assms
proof (induction ns arbitrary: m frontier)
  case Nil
  then show ?case by (simp add: mark_def)
next
  case (Cons a ns)
  show ?case
  proof (cases "a = e")
    case True
    then show ?thesis using Cons.prems by (simp add: mark_def)
  next
    case ne: False
    show ?thesis
    proof (cases "cell_at m a = Some FLOOR")
      case True
      have m: "mark m (a # discover ((cell_at m)(a := Some ACTIVE)) e ns)
                 = mark (put m a ACTIVE) (discover ((cell_at m)(a := Some ACTIVE)) e ns)"
        by (simp add: mark_def)
      have "gbfs_neighbors e (put m a ACTIVE) position final
              (insert_by_priority (gbfs_element e position a) frontier) ns =
            Inr (mark (put m a ACTIVE) (discover (cell_at (put m a ACTIVE)) e ns),
                if e \<in> set ns then Some (searched_cell e (Some position)) else final,
                fold insert_by_priority (map (gbfs_element e position) (discover (cell_at (put m a ACTIVE)) e ns))
                  (insert_by_priority (gbfs_element e position a) frontier))"
        using Cons.prems by (intro Cons.IH) simp_all
      moreover have "splice (index_to_insert (euclidean_distance a e) frontier)
                       \<lparr>priority = euclidean_distance a e, cell = searched_cell a (Some position)\<rparr>
                       frontier = insert_by_priority (gbfs_element e position a) frontier"
        by (simp add: insert_by_priority_def gbfs_element_def)
      ultimately show ?thesis using Cons.prems ne True
        by (simp add: bind_error_def get_cell_type_Inr set_cell_type_Inr cell_at_put m Let_def)
    next
      case False
      then show ?thesis using Cons ne
        by (simp add: bind_error_def get_cell_type_Inr)
    qed
  qed
qed

lemma astar_neighbors_eq:
  assumes "\<forall>a\<in>set ns. has_column m (coord_x a)" "end' m = Some e"
  shows "astar_neighbors m fe final frontier ns =
           Inr (mark m (discover (cell_at m) e ns),
                if e \<in> set ns then Some (searched_cell e (Some (cell fe))) else final,
                fold insert_by_priority (map (astar_element e fe) (discover (cell_at m) e ns)) frontier)"
  using assms
proof (induction ns arbitrary: m frontier)
  case Nil
  then show ?case by (simp add: mark_def)
next
  case (Cons a ns)
  show ?case
  proof (cases "a = e")
    case True
    then show ?thesis using Cons.prems by (simp add: mark_def)
  next
    case ne: False
    show ?thesis
    proof (cases "cell_at m a = Some FLOOR")
      case True
      have m: "mark m (a # discover ((cell_at m)(a := Some ACTIVE)) e ns)
                 = mark (put m a ACTIVE) (discover ((cell_at m)(a := Some ACTIVE)) e ns)"
        by (simp add: mark_def)
      have "astar_neighbors (put m a ACTIVE) fe final
              (insert_by_priority (astar_element e fe a) frontier) ns =
            Inr (mark (put m a ACTIVE) (discover (cell_at (put m a ACTIVE)) e ns),
                if e \<in> set ns then Some (searched_cell e (Some (cell fe))) else final,
                fold insert_by_priority (map (astar_element e fe) (discover (cell_at (put m a ACTIVE)) e ns))
                  (insert_by_priority (astar_element e fe a) frontier))"
        using Cons.prems by (intro Cons.IH) simp_all
      moreover have "splice (index_to_insert (astar_dist (put m a ACTIVE) fe a) frontier)
                       \<lparr>priority = astar_dist (put m a ACTIVE) fe a,
                        cell = searched_cell a (Some (cell fe)),
                        length_pq = length_pq fe + 1\<rparr>
                       frontier = insert_by_priority (astar_element e fe a) frontier"
        using Cons.prems by (simp add: insert_by_priority_def astar_element_def astar_dist_def)
      ultimately show ?thesis using Cons.prems ne True
        by (simp add: bind_error_def get_cell_type_Inr set_cell_type_Inr cell_at_put m Let_def)
    next
      case False
      then show ?thesis using Cons ne
        by (simp add: bind_error_def get_cell_type_Inr)
    qed
  qed
qed

lemma gbfs_neighbors_frontier:
  "gbfs_neighbors e m position final frontier ns = Inr (m', final', frontier') \<Longrightarrow>
   \<exists>ds. set ds \<subseteq> set ns \<and>
        frontier' = fold insert_by_priority (map (gbfs_element e position) ds) frontier"
proof (induction ns arbitrary: m frontier)
  case Nil
  then show ?case by (intro exI[of _ "[]"]) simp
next
  case (Cons a ns)
  show ?case
  proof (cases "coordinate_equals (end' m) (Some a)")
    case True
    then show ?thesis using Cons.prems by (intro exI[of _ "[]"]) simp
  next
    case ne: False
    show ?thesis
    proof (cases "get_cell_type m a")
      case (Inl err)
      then show ?thesis using Cons.prems ne by (simp add: bind_error_def)
    next
      case (Inr t)
      show ?thesis
      proof (cases "t = Some FLOOR")
        case True
        show ?thesis
        proof (cases "set_cell_type m a ACTIVE")
          case (Inl err)
          then show ?thesis using Cons.prems ne Inr True by (simp add: bind_error_def)
        next
          case m1: (Inr m1)
          have ins: "splice (index_to_insert (euclidean_distance a e) frontier)
                       \<lparr>priority = euclidean_distance a e, cell = searched_cell a (Some position)\<rparr>
                       frontier = insert_by_priority (gbfs_element e position a) frontier"
            by (simp add: insert_by_priority_def gbfs_element_def)
          have "gbfs_neighbors e m1 position final
                  (insert_by_priority (gbfs_element e position a) frontier) ns = Inr (m', final', frontier')"
            using Cons.prems ne Inr True m1 by (simp add: bind_error_def Let_def ins)
          from Cons.IH[OF this] obtain ds where
            "set ds \<subseteq> set ns"
            "frontier' = fold insert_by_priority (map (gbfs_element e position) ds)
                           (insert_by_priority (gbfs_element e position a) frontier)"
            by blast
          then show ?thesis by (intro exI[of _ "a # ds"]) auto
        qed
      next
        case False
        then have "gbfs_neighbors e m position final frontier ns = Inr (m', final', frontier')"
          using Cons.prems ne Inr by (simp add: bind_error_def)
        from Cons.IH[OF this] show ?thesis by auto
      qed
    qed
  qed
qed

lemma astar_neighbors_frontier:
  "astar_neighbors m fe final frontier ns = Inr (m', final', frontier') \<Longrightarrow> end' m = Some e \<Longrightarrow>
   \<exists>ds. set ds \<subseteq> set ns \<and>
        frontier' = fold insert_by_priority (map (astar_element e fe) ds) frontier"
proof (induction ns arbitrary: m frontier)
  case Nil
  then show ?case by (intro exI[of _ "[]"]) simp
next
  case (Cons a ns)
  show ?case
  proof (cases "coordinate_equals (end' m) (Some a)")
    case True
    then show ?thesis using Cons.prems by (intro exI[of _ "[]"]) simp
  next
    case ne: False
    show ?thesis
    proof (cases "get_cell_type m a")
      case (Inl err)
      then show ?thesis using Cons.prems ne by (simp add: bind_error_def)
    next
      case (Inr t)
      show ?thesis
      proof (cases "t = Some FLOOR")
        case True
        show ?thesis
        proof (cases "set_cell_type m a ACTIVE")
          case (Inl err)
          then show ?thesis using Cons.prems ne Inr True by (simp add: bind_error_def)
        next
          case m1: (Inr m1)
          have e1: "end' m1 = Some e"
            using m1 Cons.prems(2) by (auto simp: set_cell_type_def split: option.splits)
          have ins: "splice (index_to_insert (astar_dist m1 fe a) frontier)
                       \<lparr>priority = astar_dist m1 fe a,
                        cell = searched_cell a (Some (cell fe)),
                        length_pq = length_pq fe + 1\<rparr>
                       frontier = insert_by_priority (astar_element e fe a) frontier"
            using e1 by (simp add: insert_by_priority_def astar_element_def astar_dist_def)
          have "astar_neighbors m1 fe final
                  (insert_by_priority (astar_element e fe a) frontier) ns = Inr (m', final', frontier')"
            using Cons.prems ne Inr True m1 by (simp add: bind_error_def Let_def ins)
          from Cons.IH[OF this e1] obtain ds where
            "set ds \<subseteq> set ns"
            "frontier' = fold insert_by_priority (map (astar_element e fe) ds)
                           (insert_by_priority (astar_element e fe a) frontier)"
            by blast
          then show ?thesis by (intro exI[of _ "a # ds"]) auto
        qed
      next
        case False
        then have "astar_neighbors m fe final frontier ns = Inr (m', final', frontier')"
          using Cons.prems ne Inr by (simp add: bind_error_def)
        from Cons.IH[OF this Cons.prems(2)] show ?thesis by auto
      qed
    qed
  qed
qed

lemma set_cell_type_end: "set_cell_type m c v = Inr m' \<Longrightarrow> end' m' = end' m \<and> width m' = width m"
  by (auto simp: set_cell_type_def split: option.splits)

lemma gbfs_step_frontier:
  assumes "gbfs_step s = Inr s'"
  shows "search_frontier s' = search_frontier s \<or>
         (\<exists>e fe rest ds. end' (grid s) = Some e \<and> search_frontier s = fe # rest \<and>
            set ds \<subseteq> set (get_neighboring_coordinates (grid s) (coord (cell fe))) \<and>
            search_frontier s' = fold insert_by_priority (map (gbfs_element e (cell fe)) ds) rest)"
proof (cases "end' (grid s) = None \<or> interval_code s = None \<or> is_paused s \<or> search_frontier s = []")
  case True
  then have "s' = s" using assms by (auto simp: gbfs_step_def split: option.splits list.splits if_splits)
  then show ?thesis by simp
next
  case False
  then obtain e fe rest where e: "end' (grid s) = Some e" and fr: "search_frontier s = fe # rest"
    and run: "interval_code s \<noteq> None" "\<not> is_paused s"
    by (cases "search_frontier s") auto
  obtain m1 where m1: "set_cell_type (grid s) (coord (cell fe)) EXPLORED = Inr m1"
    using assms e fr run by (cases "set_cell_type (grid s) (coord (cell fe)) EXPLORED")
      (auto simp: gbfs_step_def bind_error_def Let_def)
  obtain m2 final frontier where loop:
    "gbfs_neighbors e m1 (cell fe) (final_searched_cell s) rest
       (get_neighboring_coordinates m1 (coord (cell fe))) = Inr (m2, final, frontier)"
    using assms e fr run m1
    by (cases "gbfs_neighbors e m1 (cell fe) (final_searched_cell s) rest
                 (get_neighboring_coordinates m1 (coord (cell fe)))")
       (auto simp: gbfs_step_def bind_error_def Let_def)
  have "search_frontier s' = frontier"
    using assms e fr run m1 loop
    by (auto simp: gbfs_step_def bind_error_def Let_def split: sum.splits if_splits)
  moreover have "get_neighboring_coordinates m1 = get_neighboring_coordinates (grid s)"
    using set_cell_type_end[OF m1] by (intro ext) (simp add: get_neighboring_coordinates_def)
  ultimately show ?thesis using gbfs_neighbors_frontier[OF loop] e fr by auto
qed

lemma astar_step_frontier:
  assumes "astar_step s = Inr s'"
  shows "search_frontier s' = search_frontier s \<or>
         (\<exists>e fe rest ds. end' (grid s) = Some e \<and> search_frontier s = fe # rest \<and>
            set ds \<subseteq> set (get_neighboring_coordinates (grid s) (coord (cell fe))) \<and>
            search_frontier s' = fold insert_by_priority (map (astar_element e fe) ds) rest)"
proof (cases "end' (grid s) = None \<or> interval_code s = None \<or> is_paused s \<or> search_frontier s = []")
  case True
  then have "s' = s" using assms by (auto simp: astar_step_def split: option.splits list.splits if_splits)
  then show ?thesis by simp
next
  case False
  then obtain e fe rest where e: "end' (grid s) = Some e" and fr: "search_frontier s = fe # rest"
    and run: "interval_code s \<noteq> None" "\<not> is_paused s"
    by (cases "search_frontier s") auto
  obtain m1 where m1: "set_cell_type (grid s) (coord (cell fe)) EXPLORED = Inr m1"
    using assms e fr run by (cases "set_cell_type (grid s) (coord (cell fe)) EXPLORED")
      (auto simp: astar_step_def bind_error_def Let_def)
  obtain m2 final frontier where loop:
    "astar_neighbors m1 fe (final_searched_cell s) rest
       (get_neighboring_coordinates m1 (coord (cell fe))) = Inr (m2, final, frontier)"
    using assms e fr run m1
    by (cases "astar_neighbors m1 fe (final_searched_cell s) rest
                 (get_neighboring_coordinates m1 (coord (cell fe)))")
       (auto simp: astar_step_def bind_error_def Let_def)
  have "search_frontier s' = frontier"
    using assms e fr run m1 loop
    by (auto simp: astar_step_def bind_error_def Let_def split: sum.splits if_splits)
  moreover have "get_neighboring_coordinates m1 = get_neighboring_coordinates (grid s)"
    using set_cell_type_end[OF m1] by (intro ext) (simp add: get_neighboring_coordinates_def)
  moreover have "end' m1 = Some e" using set_cell_type_end[OF m1] e by simp
  ultimately show ?thesis using astar_neighbors_frontier[OF loop] e fr by auto
qed

subsection \<open>Facts about the neighbours\<close>

lemma neighbors_iff:
  "a \<in> set (get_neighboring_coordinates m c) \<longleftrightarrow>
     (a = Coordinate (coord_x c + 1) (coord_y c) \<and> coord_x c + 1 \<le> width m - 1) \<or>
     (a = Coordinate (coord_x c) (coord_y c + 1) \<and> coord_y c + 1 \<le> width m - 1) \<or>
     (a = Coordinate (coord_x c - 1) (coord_y c) \<and> 0 \<le> coord_x c - 1) \<or>
     (a = Coordinate (coord_x c) (coord_y c - 1) \<and> 0 \<le> coord_y c - 1)"
  by (auto simp: get_neighboring_coordinates_def)

lemma neighbors_not_self: "c \<notin> set (get_neighboring_coordinates m c)"
  by (cases c) (auto simp: neighbors_iff)

lemma neighbors_width:
  "width m' = width m \<Longrightarrow> get_neighboring_coordinates m' = get_neighboring_coordinates m"
  by (rule ext) (simp add: get_neighboring_coordinates_def)

lemma get_neighboring_coordinates_mark [simp]:
  "get_neighboring_coordinates (mark m ds) = get_neighboring_coordinates m"
  by (rule neighbors_width) simp

lemma get_neighboring_coordinates_revert [simp]:
  "get_neighboring_coordinates (revert m ns) = get_neighboring_coordinates m"
  by (rule neighbors_width) simp

lemma neighbors_fst:
  "a \<in> set (get_neighboring_coordinates m c) \<Longrightarrow>
   (coord_x a = coord_x c + 1 \<and> coord_x c + 1 \<le> width m - 1) \<or> coord_x a = coord_x c \<or>
   (coord_x a = coord_x c - 1 \<and> 0 \<le> coord_x c - 1)"
  unfolding neighbors_iff by (elim disjE conjE) simp_all

lemma neighbors_column:
  assumes cols: "columns_ok m" and pc: "has_column m (coord_x c)"
    and a: "a \<in> set (get_neighboring_coordinates m c)"
  shows "has_column m (coord_x a)"
proof -
  have c: "0 \<le> coord_x c \<and> coord_x c < width m" using cols pc unfolding columns_ok_def by blast
  have "0 \<le> coord_x a \<and> coord_x a < width m" using neighbors_fst[OF a] c by arith
  then show ?thesis using cols unfolding columns_ok_def by blast
qed

lemma neighbors_manhattan:
  "a \<in> set (get_neighboring_coordinates m c) \<Longrightarrow> manhattan_distance c a = 1"
  by (auto simp: neighbors_iff manhattan_distance_def)

lemma manhattan_neighbors:
  assumes "manhattan_distance c a = 1" "in_bounds m c" "in_bounds m a" "height m \<le> width m"
  shows "a \<in> set (get_neighboring_coordinates m c)"
proof -
  obtain cx cy ax ay where [simp]: "c = Coordinate cx cy" "a = Coordinate ax ay"
    by (cases c, cases a) auto
  from assms have "\<bar>cx - ax\<bar> + \<bar>cy - ay\<bar> = 1" by (simp add: manhattan_distance_def)
  then have "(ax = cx + 1 \<and> ay = cy) \<or> (ax = cx - 1 \<and> ay = cy) \<or>
             (ax = cx \<and> ay = cy + 1) \<or> (ax = cx \<and> ay = cy - 1)"
    by arith
  then show ?thesis using assms(2-4) by (auto simp: neighbors_iff in_bounds_def)
qed

lemma columns_ok_put [simp]: "has_column m (coord_x c) \<Longrightarrow> columns_ok (put m c v) = columns_ok m"
  by (simp add: columns_ok_def)

subsection \<open>The steps as expansions\<close>

lemma expansion_facts:
  assumes cols: "columns_ok m" and pc: "has_column m (coord_x c)" and e: "end' m = Some e"
  defines "ns \<equiv> get_neighboring_coordinates m c"
  defines "m1 \<equiv> put m c EXPLORED"
  shows "set_cell_type m c EXPLORED = Inr m1"
    and "get_neighboring_coordinates m1 c = ns"
    and "\<forall>a\<in>set ns. has_column m1 (coord_x a)"
    and "end' m1 = Some e"
    and "get_neighboring_coordinates (mark m1 (children m e c)) c = ns"
    and "\<forall>a\<in>set ns. has_column (mark m1 (children m e c)) (coord_x a)"
    and "discover (cell_at m1) e ns = children m e c"
proof -
  show "set_cell_type m c EXPLORED = Inr m1" using pc by (simp add: set_cell_type_Inr m1_def)
  show "get_neighboring_coordinates m1 c = ns" by (simp add: m1_def ns_def)
  show c1: "\<forall>a\<in>set ns. has_column m1 (coord_x a)"
    using neighbors_column[OF cols pc] pc by (simp add: m1_def ns_def)
  show "end' m1 = Some e" using e by (simp add: m1_def)
  show "discover (cell_at m1) e ns = children m e c" by (simp add: children_def m1_def ns_def)
  have sub: "set (children m e c) \<subseteq> set ns"
    using discover_subset[of "cell_at m1" e ns] by (simp add: children_def m1_def ns_def)
  show "get_neighboring_coordinates (mark m1 (children m e c)) c = ns"
    by (simp add: m1_def ns_def)
  show "\<forall>a\<in>set ns. has_column (mark m1 (children m e c)) (coord_x a)"
    using c1 sub by (subst has_column_mark) auto
qed

lemma bfs_step_expand:
  assumes run: "interval_code s \<noteq> None" "\<not> is_paused s" and ne: "\<not> search_ended s"
    and e: "end' (grid s) = Some e" and cols: "columns_ok (grid s)"
    and fr: "iterator s @ next_search_frontier s = p # rest"
    and pc: "has_column (grid s) (coord_x (coord p))"
  shows "\<exists>s'. bfs_step s = Inr s' \<and>
       final_searched_cell s' =
         (if e \<in> set (get_neighboring_coordinates (grid s) (coord p))
          then Some (searched_cell e (Some p)) else final_searched_cell s) \<and>
       grid s' = expanded (grid s) e (coord p) (final_searched_cell s' \<noteq> None) \<and>
       search_ended s' = (final_searched_cell s' \<noteq> None) \<and>
       iterator s' = (if iterator s = [] then rest else tl (iterator s)) \<and>
       next_search_frontier s' =
         (if iterator s = [] then [] else next_search_frontier s) @
         map (\<lambda>a. searched_cell a (Some p)) (children (grid s) e (coord p)) \<and>
       is_paused s' = is_paused s \<and> interval_code s' = interval_code s"
proof -
  let ?m = "grid s" and ?c = "coord p"
  let ?ns = "get_neighboring_coordinates ?m ?c"
  let ?m1 = "put ?m ?c EXPLORED"
  let ?kids = "children ?m e ?c"
  note f = expansion_facts[OF cols pc e]
  from run(1) obtain code where ic: "interval_code s = Some code" by auto
  have loop: "\<And>final frontier. bfs_neighbors ?m1 p final frontier ?ns =
                Inr (mark ?m1 ?kids,
                     if e \<in> set ?ns then Some (searched_cell e (Some p)) else final,
                     frontier @ map (\<lambda>a. searched_cell a (Some p)) ?kids)"
    using bfs_neighbors_eq[OF f(3) f(4)] f(7) by simp
  have rev: "revert_active (mark ?m1 ?kids) ?ns = Inr (revert (mark ?m1 ?kids) ?ns)"
    using revert_active_eq[OF f(6)] .
  show ?thesis
  proof (cases "iterator s")
    case Nil
    then have nx: "next_search_frontier s = p # rest" using fr by simp
    show ?thesis using ic run(2) ne Nil nx
      by (simp add: bfs_step_def Let_def bind_error_def f(1) f(2) f(5) loop rev expanded_def)
  next
    case (Cons q it)
    then have q: "q = p" using fr by simp
    show ?thesis using ic run(2) ne Cons q
      by (simp add: bfs_step_def Let_def bind_error_def f(1) f(2) f(5) loop rev expanded_def)
  qed
qed

lemma bfs_step_exhausted:
  assumes "interval_code s \<noteq> None" "\<not> is_paused s" "iterator s = []" "next_search_frontier s = []"
  shows "bfs_step s = Inr (s\<lparr>search_ended := True\<rparr>)"
proof -
  from assms(1) obtain code where "interval_code s = Some code" by auto
  then show ?thesis using assms by (simp add: bfs_step_def Let_def)
qed

lemma gbfs_step_expand:
  assumes run: "interval_code s \<noteq> None" "\<not> is_paused s"
    and e: "end' (grid s) = Some e" and cols: "columns_ok (grid s)"
    and fr: "search_frontier s = fe # rest"
    and pc: "has_column (grid s) (coord_x (coord (cell fe)))"
  shows "\<exists>s'. gbfs_step s = Inr s' \<and>
       final_searched_cell s' =
         (if e \<in> set (get_neighboring_coordinates (grid s) (coord (cell fe)))
          then Some (searched_cell e (Some (cell fe))) else final_searched_cell s) \<and>
       grid s' = expanded (grid s) e (coord (cell fe)) (final_searched_cell s' \<noteq> None) \<and>
       search_frontier s' =
         fold insert_by_priority
           (map (gbfs_element e (cell fe)) (children (grid s) e (coord (cell fe)))) rest \<and>
       search_ended s' =
         (search_frontier s' = [] \<or> final_searched_cell s' \<noteq> None \<or> search_ended s) \<and>
       is_paused s' = is_paused s \<and> interval_code s' = interval_code s"
proof -
  let ?m = "grid s" and ?c = "coord (cell fe)"
  let ?ns = "get_neighboring_coordinates ?m ?c"
  let ?m1 = "put ?m ?c EXPLORED"
  let ?kids = "children ?m e ?c"
  note f = expansion_facts[OF cols pc e]
  from run(1) obtain code where ic: "interval_code s = Some code" by auto
  have loop: "\<And>final frontier. gbfs_neighbors e ?m1 (cell fe) final frontier ?ns =
                Inr (mark ?m1 ?kids,
                     if e \<in> set ?ns then Some (searched_cell e (Some (cell fe))) else final,
                     fold insert_by_priority (map (gbfs_element e (cell fe)) ?kids) frontier)"
    using gbfs_neighbors_eq[OF f(3) f(4)] f(7) by simp
  have rev: "revert_active (mark ?m1 ?kids) ?ns = Inr (revert (mark ?m1 ?kids) ?ns)"
    using revert_active_eq[OF f(6)] .
  show ?thesis using ic run(2) e fr
    by (simp add: gbfs_step_def Let_def bind_error_def f(1) f(2) f(5) loop rev expanded_def)
qed

lemma astar_step_expand:
  assumes run: "interval_code s \<noteq> None" "\<not> is_paused s"
    and e: "end' (grid s) = Some e" and cols: "columns_ok (grid s)"
    and fr: "search_frontier s = fe # rest"
    and pc: "has_column (grid s) (coord_x (coord (cell fe)))"
  shows "\<exists>s'. astar_step s = Inr s' \<and>
       final_searched_cell s' =
         (if e \<in> set (get_neighboring_coordinates (grid s) (coord (cell fe)))
          then Some (searched_cell e (Some (cell fe))) else final_searched_cell s) \<and>
       grid s' = expanded (grid s) e (coord (cell fe)) (final_searched_cell s' \<noteq> None) \<and>
       search_frontier s' =
         fold insert_by_priority
           (map (astar_element e fe) (children (grid s) e (coord (cell fe)))) rest \<and>
       search_ended s' =
         (search_frontier s' = [] \<or> final_searched_cell s' \<noteq> None \<or> search_ended s) \<and>
       is_paused s' = is_paused s \<and> interval_code s' = interval_code s"
proof -
  let ?m = "grid s" and ?c = "coord (cell fe)"
  let ?ns = "get_neighboring_coordinates ?m ?c"
  let ?m1 = "put ?m ?c EXPLORED"
  let ?kids = "children ?m e ?c"
  note f = expansion_facts[OF cols pc e]
  from run(1) obtain code where ic: "interval_code s = Some code" by auto
  have loop: "\<And>final frontier. astar_neighbors ?m1 fe final frontier ?ns =
                Inr (mark ?m1 ?kids,
                     if e \<in> set ?ns then Some (searched_cell e (Some (cell fe))) else final,
                     fold insert_by_priority (map (astar_element e fe) ?kids) frontier)"
    using astar_neighbors_eq[OF f(3) f(4)] f(7) by simp
  have rev: "revert_active (mark ?m1 ?kids) ?ns = Inr (revert (mark ?m1 ?kids) ?ns)"
    using revert_active_eq[OF f(6)] .
  show ?thesis using ic run(2) e fr
    by (simp add: astar_step_def Let_def bind_error_def f(1) f(2) f(5) loop rev expanded_def)
qed

subsection \<open>The invariant of the search\<close>

lemma chain_Cons: "chain p = coord p # (case prev_cell p of None \<Rightarrow> [] | Some q \<Rightarrow> chain q)"
  by (cases p) simp

lemma cell_at_has_column: "cell_at m c \<noteq> None \<Longrightarrow> has_column m (coord_x c)"
  by (auto simp: cell_at_def has_column_def split: option.splits)

lemma children_facts:
  assumes pc: "has_column m (coord_x c)"
  shows "set (children m e c) \<subseteq> set (get_neighboring_coordinates m c)"
    and "distinct (children m e c)"
    and "a \<in> set (children m e c) \<Longrightarrow> cell_at m a = Some FLOOR \<and> a \<noteq> e \<and> a \<noteq> c"
    and "e \<notin> set (get_neighboring_coordinates m c) \<Longrightarrow> a \<in> set (get_neighboring_coordinates m c)
         \<Longrightarrow> cell_at m a = Some FLOOR \<Longrightarrow> a \<in> set (children m e c)"
proof -
  show "set (children m e c) \<subseteq> set (get_neighboring_coordinates m c)"
    unfolding children_def by (rule discover_subset)
  show "distinct (children m e c)" unfolding children_def by (rule discover_distinct)
  show "cell_at m a = Some FLOOR \<and> a \<noteq> e \<and> a \<noteq> c" if "a \<in> set (children m e c)"
  proof -
    from that have "cell_at (put m c EXPLORED) a = Some FLOOR \<and> a \<noteq> e"
      unfolding children_def by (rule discover_floor)
    then show ?thesis using pc by (auto simp: cell_at_put split: if_splits)
  qed
  show "a \<in> set (children m e c)"
    if "e \<notin> set (get_neighboring_coordinates m c)" "a \<in> set (get_neighboring_coordinates m c)"
       "cell_at m a = Some FLOOR"
  proof -
    have "a \<noteq> c" using that(2) neighbors_not_self by metis
    then have "cell_at (put m c EXPLORED) a = Some FLOOR" using that(3) pc by (simp add: cell_at_put)
    then show ?thesis unfolding children_def using that(1,2) by (intro discover_complete)
  qed
qed

lemma cell_at_expanded:
  assumes cols: "columns_ok m" and pc: "has_column m (coord_x c)"
  shows "cell_at (expanded m e c found) a =
           (if a \<in> set (children m e c) then (if found then Some FLOOR else Some ACTIVE)
            else if a = c then Some EXPLORED
            else if found \<and> a \<in> set (get_neighboring_coordinates m c) \<and> cell_at m a = Some ACTIVE
                 then Some FLOOR
            else cell_at m a)"
proof -
  let ?ns = "get_neighboring_coordinates m c"
  let ?m1 = "put m c EXPLORED"
  let ?kids = "children m e c"
  have sub: "set ?kids \<subseteq> set ?ns" using children_facts(1)[OF pc] .
  have c1: "\<forall>a\<in>set ?ns. has_column ?m1 (coord_x a)"
    using neighbors_column[OF cols pc] pc by simp
  then have c2: "\<forall>a\<in>set ?kids. has_column ?m1 (coord_x a)" using sub by blast
  have c3: "\<forall>a\<in>set ?ns. has_column (mark ?m1 ?kids) (coord_x a)"
    using c1 c2 by (simp add: has_column_mark)
  have mk: "cell_at (mark ?m1 ?kids) a =
              (if a \<in> set ?kids then Some ACTIVE else if a = c then Some EXPLORED else cell_at m a)"
    using c2 pc by (simp add: cell_at_mark cell_at_put)
  have nc: "c \<notin> set ?ns" by (rule neighbors_not_self)
  show ?thesis
  proof (cases found)
    case False
    then show ?thesis using mk by (simp add: expanded_def)
  next
    case True
    have "cell_at (expanded m e c found) a =
            (if a \<in> set ?ns \<and> cell_at (mark ?m1 ?kids) a = Some ACTIVE then Some FLOOR
             else cell_at (mark ?m1 ?kids) a)"
      using True c3 by (simp add: expanded_def cell_at_revert)
    then show ?thesis using True mk sub nc by auto
  qed
qed

lemma expanded_fields [simp]:
  "width (expanded m e c found) = width m" "height (expanded m e c found) = height m"
  "start (expanded m e c found) = start m" "end' (expanded m e c found) = end' m"
  by (simp_all add: expanded_def)

lemma columns_ok_expanded:
  assumes cols: "columns_ok m" and pc: "has_column m (coord_x c)"
  shows "columns_ok (expanded m e c found)"
proof -
  let ?ns = "get_neighboring_coordinates m c"
  let ?m1 = "put m c EXPLORED"
  let ?kids = "children m e c"
  have sub: "set ?kids \<subseteq> set ?ns" using children_facts(1)[OF pc] .
  have c1: "\<forall>a\<in>set ?ns. has_column ?m1 (coord_x a)"
    using neighbors_column[OF cols pc] pc by simp
  then have c2: "\<forall>a\<in>set ?kids. has_column ?m1 (coord_x a)" using sub by blast
  have c3: "\<forall>a\<in>set ?ns. has_column (mark ?m1 ?kids) (coord_x a)"
    using c1 c2 by (simp add: has_column_mark)
  have "\<And>i. has_column (expanded m e c found) i = has_column m i"
    using c2 c3 pc by (simp add: expanded_def has_column_mark has_column_revert)
  then show ?thesis using cols unfolding columns_ok_def by simp
qed

lemma search_invD:
  assumes "search_inv m0 m F X"
  shows "well_formed m0"
    and "width m = width m0" and "height m = height m0"
    and "start m = start m0" and "end' m = end' m0"
    and "columns_ok m"
    and "\<forall>c. (cell_at m c = None) = (cell_at m0 c = None)"
    and "distinct (map coord F @ X)"
    and "\<forall>c\<in>set X. cell_at m c = Some EXPLORED"
    and "X = [] \<longrightarrow> cell_at m = cell_at m0 \<and> (\<exists>s. start m0 = Some s \<and> F = [searched_cell s None])"
    and "X \<noteq> [] \<longrightarrow> (\<forall>q\<in>set F. cell_at m (coord q) = Some ACTIVE) \<and> (\<exists>s\<in>set X. start m0 = Some s)"
    and "\<forall>c. c \<notin> set X \<and> c \<notin> coord ` set F \<longrightarrow> cell_at m c = cell_at m0 c"
    and "\<forall>c\<in>set X \<union> coord ` set F. Some c = start m0 \<or> cell_at m0 c = Some FLOOR"
    and "\<forall>c\<in>set X. \<forall>a\<in>set (get_neighboring_coordinates m0 c).
          Some a \<noteq> end' m0 \<and> (cell_at m0 a = Some FLOOR \<longrightarrow> a \<in> set X \<union> coord ` set F)"
    and "\<forall>q\<in>set F. walk m0 (chain q)"
  using assms unfolding search_inv_def by simp_all

lemma search_invI:
  assumes "well_formed m0"
    and "width m = width m0" and "height m = height m0"
    and "start m = start m0" and "end' m = end' m0"
    and "columns_ok m"
    and "\<forall>c. (cell_at m c = None) = (cell_at m0 c = None)"
    and "distinct (map coord F @ X)"
    and "\<forall>c\<in>set X. cell_at m c = Some EXPLORED"
    and "X = [] \<longrightarrow> cell_at m = cell_at m0 \<and> (\<exists>s. start m0 = Some s \<and> F = [searched_cell s None])"
    and "X \<noteq> [] \<longrightarrow> (\<forall>q\<in>set F. cell_at m (coord q) = Some ACTIVE) \<and> (\<exists>s\<in>set X. start m0 = Some s)"
    and "\<forall>c. c \<notin> set X \<and> c \<notin> coord ` set F \<longrightarrow> cell_at m c = cell_at m0 c"
    and "\<forall>c\<in>set X \<union> coord ` set F. Some c = start m0 \<or> cell_at m0 c = Some FLOOR"
    and "\<forall>c\<in>set X. \<forall>a\<in>set (get_neighboring_coordinates m0 c).
          Some a \<noteq> end' m0 \<and> (cell_at m0 a = Some FLOOR \<longrightarrow> a \<in> set X \<union> coord ` set F)"
    and "\<forall>q\<in>set F. walk m0 (chain q)"
  shows "search_inv m0 m F X"
  unfolding search_inv_def using assms by simp

lemma search_inv_head_column:
  assumes inv: "search_inv m0 m (p # rest) X"
  shows "has_column m (coord_x (coord p))" and "cell_at m0 (coord p) \<noteq> None"
    and "coord p \<notin> set X" and "cell_at m (coord p) \<noteq> Some WALL"
proof -
  note d = search_invD[OF inv]
  have wf: "well_formed m0" by (rule d(1))
  have dom: "\<forall>c. (cell_at m c = None) = (cell_at m0 c = None)" by (rule d(7))
  have orig: "\<forall>c\<in>set X \<union> coord ` set (p # rest). Some c = start m0 \<or> cell_at m0 c = Some FLOOR"
    by (rule d(13))
  have dist: "distinct (map coord (p # rest) @ X)" by (rule d(8))
  have x0: "X = [] \<longrightarrow> cell_at m = cell_at m0" using d(10) by blast
  have x1: "X \<noteq> [] \<longrightarrow> (\<forall>q\<in>set (p # rest). cell_at m (coord q) = Some ACTIVE)" using d(11) by blast
  from wf obtain s where s: "start m0 = Some s" "in_bounds m0 s" "cell_at m0 s \<noteq> Some WALL"
    unfolding well_formed_def by blast
  from wf have ib: "\<forall>c. (cell_at m0 c \<noteq> None) = in_bounds m0 c" unfolding well_formed_def by blast
  have o: "Some (coord p) = start m0 \<or> cell_at m0 (coord p) = Some FLOOR" using orig by simp
  show nn: "cell_at m0 (coord p) \<noteq> None"
  proof (cases "Some (coord p) = start m0")
    case True
    then have "coord p = s" using s(1) by simp
    then show ?thesis using s(2) ib by blast
  next
    case False
    then show ?thesis using o by simp
  qed
  then have "cell_at m (coord p) \<noteq> None" using spec[OF dom, of "coord p"] by simp
  then show "has_column m (coord_x (coord p))" by (rule cell_at_has_column)
  show "coord p \<notin> set X" using dist by auto
  show "cell_at m (coord p) \<noteq> Some WALL"
  proof (cases "X = []")
    case True
    then have "cell_at m (coord p) = cell_at m0 (coord p)" using x0 by simp
    moreover have "cell_at m0 (coord p) \<noteq> Some WALL" using o s(1,3) by auto
    ultimately show ?thesis by simp
  next
    case False
    then show ?thesis using x1 by simp
  qed
qed

lemma search_inv_expand:
  assumes inv: "search_inv m0 m (p # rest) X"
    and e: "end' m0 = Some e"
    and nf: "e \<notin> set (get_neighboring_coordinates m0 (coord p))"
    and F'set: "set F' = set rest \<union> (\<lambda>a. searched_cell a (Some p)) ` set (children m e (coord p))"
    and F'len: "length F' = length rest + length (children m e (coord p))"
  shows "search_inv m0 (expanded m e (coord p) False) F' (X @ [coord p])"
proof -
  let ?c = "coord p"
  let ?kids = "children m e ?c"
  let ?m' = "expanded m e ?c False"
  let ?X' = "X @ [?c]"
  note d = search_invD[OF inv]
  have wf: "well_formed m0" by (rule d(1))
  have w: "width m = width m0" and h: "height m = height m0"
    and st: "start m = start m0" and en: "end' m = end' m0"
    by (rule d(2) d(3) d(4) d(5))+
  have cols: "columns_ok m" by (rule d(6))
  have dom: "\<forall>c. (cell_at m c = None) = (cell_at m0 c = None)" by (rule d(7))
  have dist: "distinct (map coord (p # rest) @ X)" by (rule d(8))
  have expl: "\<forall>c\<in>set X. cell_at m c = Some EXPLORED" by (rule d(9))
  have x0: "X = [] \<longrightarrow> cell_at m = cell_at m0 \<and> (\<exists>s. start m0 = Some s \<and> p # rest = [searched_cell s None])"
    by (rule d(10))
  have x1: "X \<noteq> [] \<longrightarrow> (\<forall>q\<in>set (p # rest). cell_at m (coord q) = Some ACTIVE) \<and> (\<exists>s\<in>set X. start m0 = Some s)"
    by (rule d(11))
  have same: "\<forall>c. c \<notin> set X \<and> c \<notin> coord ` set (p # rest) \<longrightarrow> cell_at m c = cell_at m0 c"
    by (rule d(12))
  have orig: "\<forall>c\<in>set X \<union> coord ` set (p # rest). Some c = start m0 \<or> cell_at m0 c = Some FLOOR"
    by (rule d(13))
  have clos: "\<forall>c\<in>set X. \<forall>a\<in>set (get_neighboring_coordinates m0 c).
          Some a \<noteq> end' m0 \<and> (cell_at m0 a = Some FLOOR \<longrightarrow> a \<in> set X \<union> coord ` set (p # rest))"
    by (rule d(14))
  have walks: "\<forall>q\<in>set (p # rest). walk m0 (chain q)" by (rule d(15))
  note hd = search_inv_head_column[OF inv]
  have pc: "has_column m (coord_x ?c)" by (rule hd(1))
  have ns: "get_neighboring_coordinates m = get_neighboring_coordinates m0"
    using w by (rule neighbors_width)
  note kf = children_facts[OF pc, where e = e]
  have cell': "\<And>a. cell_at ?m' a =
                 (if a \<in> set ?kids then Some ACTIVE else if a = ?c then Some EXPLORED else cell_at m a)"
    using cell_at_expanded[OF cols pc, of e False] by simp
  have cX: "?c \<notin> set X" by (rule hd(3))
  have crest: "?c \<notin> coord ` set rest" using dist by auto
  have restX: "\<And>q. q \<in> set rest \<Longrightarrow> coord q \<notin> set X" using dist by auto
  have kid_floor: "\<And>a. a \<in> set ?kids \<Longrightarrow> cell_at m a = Some FLOOR \<and> a \<noteq> e \<and> a \<noteq> ?c"
    using kf(3) by blast
  have kid_X: "\<And>a. a \<in> set ?kids \<Longrightarrow> a \<notin> set X"
    using kid_floor expl by fastforce
  have rest_empty: "X = [] \<Longrightarrow> rest = []" using x0 by auto
  have kid_rest: "\<And>a. a \<in> set ?kids \<Longrightarrow> a \<notin> coord ` set rest"
  proof
    fix a assume a: "a \<in> set ?kids" "a \<in> coord ` set rest"
    then have "rest \<noteq> []" by auto
    then have "X \<noteq> []" using rest_empty by blast
    then have "cell_at m a = Some ACTIVE" using x1 a(2) by auto
    then show False using kid_floor[OF a(1)] by simp
  qed
  have kid_orig: "\<And>a. a \<in> set ?kids \<Longrightarrow> cell_at m0 a = Some FLOOR"
  proof -
    fix a assume a: "a \<in> set ?kids"
    have "a \<notin> set X \<and> a \<notin> coord ` set (p # rest)"
      using kid_X[OF a] kid_rest[OF a] kid_floor[OF a] by simp
    then have "cell_at m a = cell_at m0 a" using same by blast
    then show "cell_at m0 a = Some FLOOR" using kid_floor[OF a] by simp
  qed
  have coordF': "coord ` set F' = coord ` set rest \<union> set ?kids"
    unfolding F'set by (auto simp: image_Un image_image)
  \<comment> \<open>the fields and the columns\<close>
  have 1: "width ?m' = width m0" "height ?m' = height m0" "start ?m' = start m0" "end' ?m' = end' m0"
    using w h st en by simp_all
  have 2: "columns_ok ?m'" using columns_ok_expanded[OF cols pc] .
  have 3: "\<forall>c. (cell_at ?m' c = None) = (cell_at m0 c = None)"
  proof
    fix a
    show "(cell_at ?m' a = None) = (cell_at m0 a = None)"
      using cell'[of a] kid_orig[of a] hd(2) spec[OF dom, of a] spec[OF dom, of ?c]
      by (auto split: if_splits)
  qed
  \<comment> \<open>distinctness\<close>
  have dk: "distinct (map coord rest @ ?kids)"
    using dist kf(2) kid_rest by auto
  have "card (set (map coord F')) = length (map coord F')"
  proof -
    have "set (map coord F') = set (map coord rest @ ?kids)" using coordF' by simp
    then have "card (set (map coord F')) = length (map coord rest @ ?kids)"
      using distinct_card[OF dk] by simp
    then show ?thesis using F'len by simp
  qed
  then have dF': "distinct (map coord F')" by (rule card_distinct)
  have dX': "distinct ?X'" using dist cX by simp
  have "(coord ` set rest \<union> set ?kids) \<inter> (set X \<union> {?c}) = {}"
    using restX crest kid_X kid_floor by auto
  then have disj: "set (map coord F') \<inter> set ?X' = {}" using coordF' by simp
  have 4: "distinct (map coord F' @ ?X')"
    using dF' dX' disj by simp
  \<comment> \<open>the cells\<close>
  have 5: "\<forall>c\<in>set ?X'. cell_at ?m' c = Some EXPLORED"
    using cell' expl kid_X kid_floor by auto
  have 6: "?X' = [] \<longrightarrow> cell_at ?m' = cell_at m0 \<and> (\<exists>s. start m0 = Some s \<and> F' = [searched_cell s None])"
    by simp
  have 7: "?X' \<noteq> [] \<longrightarrow> (\<forall>q\<in>set F'. cell_at ?m' (coord q) = Some ACTIVE) \<and> (\<exists>s\<in>set ?X'. start m0 = Some s)"
  proof (intro impI conjI ballI)
    fix q assume q: "q \<in> set F'"
    then consider "q \<in> set rest" | a where "a \<in> set ?kids" "q = searched_cell a (Some p)"
      unfolding F'set by blast
    then show "cell_at ?m' (coord q) = Some ACTIVE"
    proof cases
      case 1
      then have "X \<noteq> []" using rest_empty by auto
      then have "cell_at m (coord q) = Some ACTIVE" using x1 1 by simp
      moreover have "coord q \<noteq> ?c" using 1 crest by (metis imageI)
      ultimately show ?thesis using cell'[of "coord q"] by simp
    next
      case 2
      then show ?thesis using cell'[of a] by simp
    qed
  next
    show "\<exists>s\<in>set ?X'. start m0 = Some s"
    proof (cases "X = []")
      case True
      then show ?thesis using x0 by auto
    next
      case False
      then show ?thesis using x1 by auto
    qed
  qed
  have 8: "\<forall>c. c \<notin> set ?X' \<and> c \<notin> coord ` set F' \<longrightarrow> cell_at ?m' c = cell_at m0 c"
  proof (intro allI impI)
    fix a assume a: "a \<notin> set ?X' \<and> a \<notin> coord ` set F'"
    then have "a \<notin> set ?kids" "a \<noteq> ?c" "a \<notin> set X" "a \<notin> coord ` set rest"
      using coordF' by auto
    then show "cell_at ?m' a = cell_at m0 a" using cell'[of a] same by simp
  qed
  have 9: "\<forall>c\<in>set ?X' \<union> coord ` set F'. Some c = start m0 \<or> cell_at m0 c = Some FLOOR"
    using orig kid_orig coordF' by auto
  have 10: "\<forall>c\<in>set ?X'. \<forall>a\<in>set (get_neighboring_coordinates m0 c).
          Some a \<noteq> end' m0 \<and> (cell_at m0 a = Some FLOOR \<longrightarrow> a \<in> set ?X' \<union> coord ` set F')"
  proof (intro ballI)
    fix x a assume x: "x \<in> set ?X'" and a: "a \<in> set (get_neighboring_coordinates m0 x)"
    show "Some a \<noteq> end' m0 \<and> (cell_at m0 a = Some FLOOR \<longrightarrow> a \<in> set ?X' \<union> coord ` set F')"
    proof (cases "x \<in> set X")
      case True
      then have "Some a \<noteq> end' m0"
        and "cell_at m0 a = Some FLOOR \<longrightarrow> a \<in> set X \<union> coord ` set (p # rest)"
        using clos a by blast+
      then show ?thesis using coordF' by auto
    next
      case False
      then have xc: "x = ?c" using x by simp
      have ne: "a \<noteq> e" using a nf xc by auto
      have "a \<in> set ?X' \<union> coord ` set F'" if fl: "cell_at m0 a = Some FLOOR"
      proof (cases "a \<in> set X \<or> a \<in> coord ` set (p # rest)")
        case True
        then show ?thesis using coordF' by auto
      next
        case False
        then have "cell_at m a = Some FLOOR" using same fl by simp
        moreover have "a \<in> set (get_neighboring_coordinates m ?c)" using a xc ns by simp
        moreover have "e \<notin> set (get_neighboring_coordinates m ?c)" using nf ns by simp
        ultimately have "a \<in> set ?kids" using kf(4) by blast
        then show ?thesis using coordF' by simp
      qed
      then show ?thesis using ne e by simp
    qed
  qed
  have 11: "\<forall>q\<in>set F'. walk m0 (chain q)"
  proof
    fix q assume q: "q \<in> set F'"
    then consider "q \<in> set rest" | a where "a \<in> set ?kids" "q = searched_cell a (Some p)"
      unfolding F'set by blast
    then show "walk m0 (chain q)"
    proof cases
      case 1
      then show ?thesis using walks by simp
    next
      case 2
      have wp: "walk m0 (chain p)" using walks by simp
      obtain tl where tl: "chain p = ?c # tl" using chain_Cons[of p] by blast
      have "a \<in> set (get_neighboring_coordinates m0 ?c)" using 2(1) kf(1) ns by auto
      moreover have "cell_at m0 a = Some FLOOR" using kid_orig 2(1) by blast
      moreover have "Some a \<noteq> end' m0" using kid_floor[OF 2(1)] e by simp
      ultimately show ?thesis using 2(2) wp tl by simp
    qed
  qed
  show ?thesis
    by (rule search_invI[OF wf 1 2 3 4 5 6 7 8 9 10 11])
qed

subsection \<open>Runs\<close>

lemma run_ended: "search_ended s \<Longrightarrow> run step n s = Inr s"
  by (cases n) simp_all

lemma run_step:
  "\<not> search_ended s \<Longrightarrow> step s = Inr s1 \<Longrightarrow> run step (Suc n) s = run step n s1"
  by (simp add: bind_error_def)

lemma run_positions_step:
  "\<not> search_ended s \<Longrightarrow> step s = Inr s1 \<Longrightarrow>
   run_positions step position (Suc n) s =
     (case position s of None \<Rightarrow> [] | Some p \<Rightarrow> [p]) @ run_positions step position n s1"
  by simp

text \<open>A list of distinct cells in bounds is no longer than the grid has cells.\<close>

lemma in_bounds_count:
  assumes d: "distinct cs" and b: "\<forall>c\<in>set cs. in_bounds m c"
  shows "length cs \<le> nat (width m * height m)"
proof -
  let ?B = "(\<lambda>(i, j). Coordinate i j) ` ({0..<width m} \<times> {0..<height m})"
  have "set cs \<subseteq> ?B"
  proof
    fix c assume "c \<in> set cs"
    then have "in_bounds m c" using b by blast
    then have "(coord_x c, coord_y c) \<in> {0..<width m} \<times> {0..<height m}"
      by (simp add: in_bounds_def)
    then have "(\<lambda>(i, j). Coordinate i j) (coord_x c, coord_y c) \<in> ?B" by (rule imageI)
    then show "c \<in> ?B" by simp
  qed
  then have "card (set cs) \<le> card ?B" by (intro card_mono) simp_all
  also have "\<dots> \<le> card ({0..<width m} \<times> {0..<height m})" by (rule card_image_le) simp
  also have "\<dots> = nat (width m) * nat (height m)" by (simp add: card_cartesian_product)
  also have "\<dots> \<le> nat (width m * height m)"
  proof (cases "0 \<le> width m \<and> 0 \<le> height m")
    case True
    then show ?thesis by (simp add: nat_mult_distrib)
  next
    case False
    then show ?thesis by auto
  qed
  finally show ?thesis using distinct_card[OF d] by simp
qed

text \<open>
  A run from a state with invariant \<open>I\<close>: every call returns, and the run ends within as
  many further expansions as the grid has cells left. \<open>R\<close> is what the step that ends the
  run establishes.
\<close>

lemma run_terminates:
  fixes step :: "'a MazeSolvingAlgorithm_scheme \<Rightarrow> error + 'a MazeSolvingAlgorithm_scheme"
  assumes stepI: "\<And>s X. I s X \<Longrightarrow>
      \<exists>s'. step s = Inr s' \<and>
        (case position s of
           None \<Rightarrow> search_ended s' \<and> R s'
         | Some p \<Rightarrow> coord p \<notin> set X \<and> in_bounds m0 (coord p) \<and>
                     ((search_ended s' \<and> R s') \<or> I s' (X @ [coord p])))"
    and Iprop: "\<And>s X. I s X \<Longrightarrow> \<not> search_ended s \<and> distinct X \<and> (\<forall>c\<in>set X. in_bounds m0 c)"
  shows "I s X \<Longrightarrow> length X + k = nat (width m0 * height m0) \<Longrightarrow>
         \<exists>n s'. n \<le> Suc k \<and> run step n s = Inr s' \<and> search_ended s' \<and> R s' \<and>
                distinct (X @ map coord (run_positions step position n s)) \<and>
                (\<forall>c\<in>set (map coord (run_positions step position n s)). in_bounds m0 c) \<and>
                length (run_positions step position n s) \<le> k"
proof (induction k arbitrary: s X)
  case 0
  from Iprop[OF 0(1)] have ne: "\<not> search_ended s" and dX: "distinct X"
    and bX: "\<forall>c\<in>set X. in_bounds m0 c" by blast+
  from stepI[OF 0(1)] obtain s1 where s1: "step s = Inr s1"
    and out: "case position s of
           None \<Rightarrow> search_ended s1 \<and> R s1
         | Some p \<Rightarrow> coord p \<notin> set X \<and> in_bounds m0 (coord p) \<and>
                     ((search_ended s1 \<and> R s1) \<or> I s1 (X @ [coord p]))" by blast
  show ?case
  proof (cases "position s")
    case None
    then have "search_ended s1 \<and> R s1" using out by simp
    moreover have "run step 1 s = Inr s1" using ne s1 by (simp add: bind_error_def)
    moreover have "run_positions step position 1 s = []" using ne s1 None by simp
    ultimately show ?thesis using dX by (intro exI[of _ 1] exI[of _ s1]) simp
  next
    case (Some p)
    then have "coord p \<notin> set X" "in_bounds m0 (coord p)" using out by simp_all
    then have "distinct (X @ [coord p])" "\<forall>c\<in>set (X @ [coord p]). in_bounds m0 c"
      using dX bX by auto
    from in_bounds_count[OF this] have "Suc (length X) \<le> nat (width m0 * height m0)" by simp
    then show ?thesis using 0(2) by simp
  qed
next
  case (Suc k)
  from Iprop[OF Suc(2)] have ne: "\<not> search_ended s" and dX: "distinct X"
    and bX: "\<forall>c\<in>set X. in_bounds m0 c" by blast+
  from stepI[OF Suc(2)] obtain s1 where s1: "step s = Inr s1"
    and out: "case position s of
           None \<Rightarrow> search_ended s1 \<and> R s1
         | Some p \<Rightarrow> coord p \<notin> set X \<and> in_bounds m0 (coord p) \<and>
                     ((search_ended s1 \<and> R s1) \<or> I s1 (X @ [coord p]))" by blast
  have r1: "run step 1 s = Inr s1" using ne s1 by (simp add: bind_error_def)
  show ?case
  proof (cases "position s")
    case None
    then have "search_ended s1 \<and> R s1" using out by simp
    moreover have "run_positions step position 1 s = []" using ne s1 None by simp
    ultimately show ?thesis using dX r1 by (intro exI[of _ 1] exI[of _ s1]) simp
  next
    case (Some p)
    then have pX: "coord p \<notin> set X" and pb: "in_bounds m0 (coord p)"
      and alt: "(search_ended s1 \<and> R s1) \<or> I s1 (X @ [coord p])" using out by simp_all
    have p1: "run_positions step position 1 s = [p]" using ne s1 Some by simp
    show ?thesis
    proof (cases "search_ended s1 \<and> R s1")
      case True
      then show ?thesis using dX r1 p1 pX pb by (intro exI[of _ 1] exI[of _ s1]) simp
    next
      case False
      then have I1: "I s1 (X @ [coord p])" using alt by blast
      have "length (X @ [coord p]) + k = nat (width m0 * height m0)" using Suc(3) by simp
      from Suc.IH[OF I1 this] obtain n s' where
        n: "n \<le> Suc k" and r: "run step n s1 = Inr s'" and en: "search_ended s'" "R s'"
        and d: "distinct ((X @ [coord p]) @ map coord (run_positions step position n s1))"
        and b: "\<forall>c\<in>set (map coord (run_positions step position n s1)). in_bounds m0 c"
        and l: "length (run_positions step position n s1) \<le> k" by blast
      have rp: "run_positions step position (Suc n) s = p # run_positions step position n s1"
        using run_positions_step[where step = step and position = position and n = n, OF ne s1] Some by simp
      have rr: "run step (Suc n) s = Inr s'" using run_step[where step = step and n = n, OF ne s1] r by simp
      show ?thesis
        using n rr en d b l pb
        by (intro exI[of _ "Suc n"] exI[of _ s']) (simp add: rp del: run.simps run_positions.simps)
    qed
  qed
qed

lemma run_invariant:
  fixes step :: "'a MazeSolvingAlgorithm_scheme \<Rightarrow> error + 'a MazeSolvingAlgorithm_scheme"
  assumes stepI: "\<And>s X. I s X \<Longrightarrow>
      \<exists>s'. step s = Inr s' \<and>
        (case position s of
           None \<Rightarrow> search_ended s' \<and> R s'
         | Some p \<Rightarrow> coord p \<notin> set X \<and> in_bounds m0 (coord p) \<and>
                     ((search_ended s' \<and> R s') \<or> I s' (X @ [coord p])))"
    and Iprop: "\<And>s X. I s X \<Longrightarrow> \<not> search_ended s \<and> distinct X \<and> (\<forall>c\<in>set X. in_bounds m0 c)"
  shows "I s X \<Longrightarrow> \<exists>s'. run step n s = Inr s' \<and> (\<not> search_ended s' \<longrightarrow> (\<exists>X'. I s' X'))"
proof (induction n arbitrary: s X)
  case 0
  then show ?case by auto
next
  case (Suc n)
  from Iprop[OF Suc(2)] have ne: "\<not> search_ended s" by blast
  from stepI[OF Suc(2)] obtain s1 where s1: "step s = Inr s1"
    and out: "case position s of
           None \<Rightarrow> search_ended s1 \<and> R s1
         | Some p \<Rightarrow> coord p \<notin> set X \<and> in_bounds m0 (coord p) \<and>
                     ((search_ended s1 \<and> R s1) \<or> I s1 (X @ [coord p]))" by blast
  have rr: "run step (Suc n) s = run step n s1" using run_step[where step = step, OF ne s1] .
  show ?case
  proof (cases "search_ended s1")
    case True
    then show ?thesis using rr run_ended[OF True, where step = step and n = n] by simp
  next
    case False
    then obtain X1 where "I s1 X1" using out by (cases "position s") auto
    from Suc.IH[OF this] show ?thesis using rr by simp
  qed
qed

subsection \<open>The steps keep the invariant\<close>

lemma search_inv_init:
  assumes wf: "well_formed m0" and s: "start m0 = Some s"
  shows "search_inv m0 m0 [searched_cell s None] []"
proof -
  from wf have cols: "columns_ok m0" unfolding well_formed_def by blast
  show ?thesis
    by (rule search_invI) (use wf cols s in simp_all)
qed

lemma expanded_change:
  assumes inv: "search_inv m0 m (p # rest) X"
  shows "step_change m (expanded m e (coord p) found) found (coord p) a"
proof -
  let ?c = "coord p"
  note d = search_invD[OF inv]
  note hd = search_inv_head_column[OF inv]
  have cols: "columns_ok m" by (rule d(6))
  have nn: "cell_at m ?c \<noteq> None" using hd(2) spec[OF d(7), of ?c] by simp
  note kf = children_facts[OF hd(1), where e = e]
  note ce = cell_at_expanded[OF cols hd(1), of e found a]
  show ?thesis
  proof (cases "a \<in> set (children m e ?c)")
    case True
    then have "cell_at m a = Some FLOOR" using kf(3) by blast
    then show ?thesis using ce True by (simp add: step_change_def forward_def)
  next
    case nk: False
    show ?thesis
    proof (cases "a = ?c")
      case True
      obtain t where t: "cell_at m ?c = Some t" using nn by blast
      have "t \<noteq> WALL" using hd(4) t by simp
      then have "t = FLOOR \<or> t = ACTIVE \<or> t = EXPLORED" by (cases t) simp_all
      then show ?thesis using ce nk True t by (auto simp: step_change_def forward_def)
    next
      case False
      then show ?thesis using ce nk by (auto simp: step_change_def forward_def)
    qed
  qed
qed

lemma best_first_outcome:
  fixes s s' :: "'a priority_queue_element_scheme best_first"
  assumes inv: "best_first_inv m0 s X" and fr: "search_frontier s = fe # rest"
    and e: "end' m0 = Some e"
    and fin: "final_searched_cell s' =
         (if e \<in> set (get_neighboring_coordinates (grid s) (coord (cell fe)))
          then Some (searched_cell e (Some (cell fe))) else final_searched_cell s)"
    and gr: "grid s' = expanded (grid s) e (coord (cell fe)) (final_searched_cell s' \<noteq> None)"
    and fs: "cell ` set (search_frontier s') =
               cell ` set rest \<union>
               (\<lambda>a. searched_cell a (Some (cell fe))) ` set (children (grid s) e (coord (cell fe)))"
    and fl: "length (search_frontier s') =
               length rest + length (children (grid s) e (coord (cell fe)))"
    and en: "search_ended s' =
               (search_frontier s' = [] \<or> final_searched_cell s' \<noteq> None \<or> search_ended s)"
    and gate: "is_paused s' = is_paused s" "interval_code s' = interval_code s"
  shows "(search_ended s' \<and> search_result m0 s') \<or> best_first_inv m0 s' (X @ [coord (cell fe)])"
proof -
  let ?p = "cell fe"
  from inv have si: "search_inv m0 (grid s) (?p # map cell rest) X"
    and f0: "final_searched_cell s = None" and ne: "\<not> search_ended s"
    and g0: "interval_code s \<noteq> None" "\<not> is_paused s"
    unfolding best_first_inv_def using fr by simp_all
  note d = search_invD[OF si]
  have ns: "get_neighboring_coordinates (grid s) = get_neighboring_coordinates m0"
    using d(2) by (rule neighbors_width)
  show ?thesis
  proof (cases "e \<in> set (get_neighboring_coordinates (grid s) (coord ?p))")
    case True
    then have f: "final_searched_cell s' = Some (searched_cell e (Some ?p))" using fin by simp
    have "walk m0 (chain ?p)" using d(15) by simp
    then have "found_by m0 ?p (final_searched_cell s')"
      using f e True ns by (simp add: found_by_def)
    then show ?thesis using en f by (auto simp: search_result_def)
  next
    case False
    then have f: "final_searched_cell s' = None" using fin f0 by simp
    have nf: "e \<notin> set (get_neighboring_coordinates m0 (coord ?p))" using False ns by simp
    have g: "grid s' = expanded (grid s) e (coord ?p) False" using gr f by simp
    have "search_inv m0 (expanded (grid s) e (coord ?p) False) (map cell (search_frontier s'))
            (X @ [coord ?p])"
      using fs fl by (intro search_inv_expand[OF si e nf]) simp_all
    then have si': "search_inv m0 (grid s') (map cell (search_frontier s')) (X @ [coord ?p])"
      using g by simp
    show ?thesis
    proof (cases "search_frontier s' = []")
      case True
      then have "exhausted m0 (grid s')" using si' by (auto simp: exhausted_def)
      then show ?thesis using en True f by (simp add: search_result_def)
    next
      case False
      then show ?thesis using si' en f ne g0 gate by (simp add: best_first_inv_def)
    qed
  qed
qed

lemma best_first_inv_props:
  assumes inv: "best_first_inv m0 s X"
  shows "\<not> search_ended s \<and> distinct X \<and> (\<forall>c\<in>set X. in_bounds m0 c)"
proof -
  from inv have si: "search_inv m0 (grid s) (map cell (search_frontier s)) X"
    and ne: "\<not> search_ended s" unfolding best_first_inv_def by simp_all
  note d = search_invD[OF si]
  from d(1) have ib: "\<forall>c. (cell_at m0 c \<noteq> None) = in_bounds m0 c"
    and sb: "\<exists>s. start m0 = Some s \<and> in_bounds m0 s"
    unfolding well_formed_def by blast+
  have "in_bounds m0 c" if "c \<in> set X" for c
  proof -
    have "Some c = start m0 \<or> cell_at m0 c = Some FLOOR" using d(13) that by blast
    then show ?thesis using sb spec[OF ib, of c] by auto
  qed
  then show ?thesis using ne d(8) by simp
qed

lemma best_first_head:
  assumes inv: "best_first_inv m0 s X" and fr: "search_frontier s = fe # rest"
  shows "\<exists>e. end' m0 = Some e \<and> end' (grid s) = Some e \<and> columns_ok (grid s) \<and>
           has_column (grid s) (coord_x (coord (cell fe))) \<and>
           best_first_position s = Some (cell fe) \<and>
           coord (cell fe) \<notin> set X \<and> in_bounds m0 (coord (cell fe)) \<and>
           search_inv m0 (grid s) (cell fe # map cell rest) X"
proof -
  from inv have si: "search_inv m0 (grid s) (cell fe # map cell rest) X"
    and g0: "interval_code s \<noteq> None" "\<not> is_paused s"
    unfolding best_first_inv_def using fr by simp_all
  note d = search_invD[OF si]
  note hd = search_inv_head_column[OF si]
  from d(1) obtain e where e: "end' m0 = Some e" unfolding well_formed_def by blast
  from d(1) have ib: "\<forall>c. (cell_at m0 c \<noteq> None) = in_bounds m0 c" unfolding well_formed_def by blast
  have "in_bounds m0 (coord (cell fe))" using hd(2) spec[OF ib, of "coord (cell fe)"] by simp
  moreover have "best_first_position s = Some (cell fe)"
    using g0 fr e d(5) by (simp add: best_first_position_def)
  ultimately show ?thesis using e d(5) d(6) hd(1) hd(3) si by simp
qed

lemma gbfs_step_inv:
  assumes inv: "best_first_inv m0 s X"
  shows "\<exists>s'. gbfs_step s = Inr s' \<and>
      (case best_first_position s of
         None \<Rightarrow> search_ended s' \<and> search_result m0 s'
       | Some p \<Rightarrow> coord p \<notin> set X \<and> in_bounds m0 (coord p) \<and>
           ((search_ended s' \<and> search_result m0 s') \<or> best_first_inv m0 s' (X @ [coord p])))"
proof -
  from inv obtain fe rest where fr: "search_frontier s = fe # rest"
    unfolding best_first_inv_def by (cases "search_frontier s") auto
  from best_first_head[OF inv fr] obtain e where e: "end' m0 = Some e" "end' (grid s) = Some e"
    and cols: "columns_ok (grid s)" and pc: "has_column (grid s) (coord_x (coord (cell fe)))"
    and pos: "best_first_position s = Some (cell fe)"
    and px: "coord (cell fe) \<notin> set X" "in_bounds m0 (coord (cell fe))" by blast
  from inv have g0: "interval_code s \<noteq> None" "\<not> is_paused s" unfolding best_first_inv_def by simp_all
  from gbfs_step_expand[OF g0 e(2) cols fr pc] obtain s' where s': "gbfs_step s = Inr s'"
    and fin: "final_searched_cell s' =
         (if e \<in> set (get_neighboring_coordinates (grid s) (coord (cell fe)))
          then Some (searched_cell e (Some (cell fe))) else final_searched_cell s)"
    and gr: "grid s' = expanded (grid s) e (coord (cell fe)) (final_searched_cell s' \<noteq> None)"
    and fq: "search_frontier s' =
         fold insert_by_priority
           (map (gbfs_element e (cell fe)) (children (grid s) e (coord (cell fe)))) rest"
    and en: "search_ended s' =
         (search_frontier s' = [] \<or> final_searched_cell s' \<noteq> None \<or> search_ended s)"
    and gate: "is_paused s' = is_paused s" "interval_code s' = interval_code s" by blast
  have fs: "cell ` set (search_frontier s') =
               cell ` set rest \<union>
               (\<lambda>a. searched_cell a (Some (cell fe))) ` set (children (grid s) e (coord (cell fe)))"
    unfolding fq by (auto simp: image_Un image_image gbfs_element_def)
  have fl: "length (search_frontier s') =
               length rest + length (children (grid s) e (coord (cell fe)))"
    unfolding fq by simp
  from best_first_outcome[OF inv fr e(1) fin gr fs fl en gate]
  show ?thesis using s' pos px by auto
qed

lemma astar_step_inv:
  assumes inv: "best_first_inv m0 s X"
  shows "\<exists>s'. astar_step s = Inr s' \<and>
      (case best_first_position s of
         None \<Rightarrow> search_ended s' \<and> search_result m0 s'
       | Some p \<Rightarrow> coord p \<notin> set X \<and> in_bounds m0 (coord p) \<and>
           ((search_ended s' \<and> search_result m0 s') \<or> best_first_inv m0 s' (X @ [coord p])))"
proof -
  from inv obtain fe rest where fr: "search_frontier s = fe # rest"
    unfolding best_first_inv_def by (cases "search_frontier s") auto
  from best_first_head[OF inv fr] obtain e where e: "end' m0 = Some e" "end' (grid s) = Some e"
    and cols: "columns_ok (grid s)" and pc: "has_column (grid s) (coord_x (coord (cell fe)))"
    and pos: "best_first_position s = Some (cell fe)"
    and px: "coord (cell fe) \<notin> set X" "in_bounds m0 (coord (cell fe))" by blast
  from inv have g0: "interval_code s \<noteq> None" "\<not> is_paused s" unfolding best_first_inv_def by simp_all
  from astar_step_expand[OF g0 e(2) cols fr pc] obtain s' where s': "astar_step s = Inr s'"
    and fin: "final_searched_cell s' =
         (if e \<in> set (get_neighboring_coordinates (grid s) (coord (cell fe)))
          then Some (searched_cell e (Some (cell fe))) else final_searched_cell s)"
    and gr: "grid s' = expanded (grid s) e (coord (cell fe)) (final_searched_cell s' \<noteq> None)"
    and fq: "search_frontier s' =
         fold insert_by_priority
           (map (astar_element e fe) (children (grid s) e (coord (cell fe)))) rest"
    and en: "search_ended s' =
         (search_frontier s' = [] \<or> final_searched_cell s' \<noteq> None \<or> search_ended s)"
    and gate: "is_paused s' = is_paused s" "interval_code s' = interval_code s" by blast
  have fs: "cell ` set (search_frontier s') =
               cell ` set rest \<union>
               (\<lambda>a. searched_cell a (Some (cell fe))) ` set (children (grid s) e (coord (cell fe)))"
    unfolding fq by (auto simp: image_Un image_image astar_element_def)
  have fl: "length (search_frontier s') =
               length rest + length (children (grid s) e (coord (cell fe)))"
    unfolding fq by simp
  from best_first_outcome[OF inv fr e(1) fin gr fs fl en gate]
  show ?thesis using s' pos px by auto
qed

lemma bfs_invD:
  assumes "bfs_inv m0 s X l"
  shows "interval_code s \<noteq> None" and "\<not> is_paused s" and "\<not> search_ended s"
    and "final_searched_cell s = None"
    and "search_inv m0 (grid s) (iterator s @ next_search_frontier s) X"
    and "\<forall>p\<in>set (iterator s). length (chain p) = l"
    and "\<forall>p\<in>set (next_search_frontier s). length (chain p) = Suc l"
    and "\<forall>cs. walk m0 cs \<and> length cs < l \<longrightarrow> hd cs \<in> set X"
    and "\<forall>cs. walk m0 cs \<and> length cs = l \<longrightarrow> hd cs \<in> set X \<union> coord ` set (iterator s)"
  using assms unfolding bfs_inv_def by simp_all

lemma bfs_invI:
  assumes "interval_code s \<noteq> None" and "\<not> is_paused s" and "\<not> search_ended s"
    and "final_searched_cell s = None"
    and "search_inv m0 (grid s) (iterator s @ next_search_frontier s) X"
    and "\<forall>p\<in>set (iterator s). length (chain p) = l"
    and "\<forall>p\<in>set (next_search_frontier s). length (chain p) = Suc l"
    and "\<forall>cs. walk m0 cs \<and> length cs < l \<longrightarrow> hd cs \<in> set X"
    and "\<forall>cs. walk m0 cs \<and> length cs = l \<longrightarrow> hd cs \<in> set X \<union> coord ` set (iterator s)"
  shows "bfs_inv m0 s X l"
  unfolding bfs_inv_def using assms by simp

lemma walk_nonempty: "walk m cs \<Longrightarrow> cs \<noteq> []"
  by (cases cs) simp_all

lemma search_inv_start:
  assumes inv: "search_inv m0 m (p # rest) X" and s: "start m0 = Some s"
  shows "s \<in> set (X @ [coord p])"
proof (cases "X = []")
  case True
  then have "p # rest = [searched_cell s None]" using search_invD(10)[OF inv] s by simp
  then show ?thesis by auto
next
  case False
  then show ?thesis using search_invD(11)[OF inv] s by auto
qed

lemma bfs_step_inv:
  assumes inv: "bfs_inv m0 s X l"
  shows "\<exists>s'. bfs_step s = Inr s' \<and>
      (case bfs_position s of
         None \<Rightarrow> search_ended s' \<and> bfs_result m0 s'
       | Some p \<Rightarrow> coord p \<notin> set X \<and> in_bounds m0 (coord p) \<and> l \<le> length (chain p) \<and>
           nearest m0 p \<and>
           ((search_ended s' \<and> bfs_result m0 s') \<or>
            bfs_inv m0 s' (X @ [coord p]) (length (chain p))))"
proof -
  note b = bfs_invD[OF inv]
  show ?thesis
  proof (cases "iterator s @ next_search_frontier s")
    case Nil
    then have emp: "iterator s = []" "next_search_frontier s = []" by simp_all
    have st: "bfs_step s = Inr (s\<lparr>search_ended := True\<rparr>)"
      using bfs_step_exhausted[OF b(1) b(2) emp] .
    have pos: "bfs_position s = None" using emp by (simp add: bfs_position_def)
    have si: "search_inv m0 (grid s) [] X" using b(5) emp by simp
    have "X \<noteq> []" using search_invD(10)[OF si] by auto
    then have "exhausted m0 (grid s)" using si by (auto simp: exhausted_def)
    then have "bfs_result m0 (s\<lparr>search_ended := True\<rparr>)" using b(4) by (simp add: bfs_result_def)
    then show ?thesis using st pos by simp
  next
    case (Cons p rest)
    have si: "search_inv m0 (grid s) (p # rest) X" using b(5) Cons by simp
    note d = search_invD[OF si]
    note hd = search_inv_head_column[OF si]
    from d(1) obtain e where e: "end' m0 = Some e" unfolding well_formed_def by blast
    from d(1) obtain s0 where s0: "start m0 = Some s0" unfolding well_formed_def by blast
    from d(1) have ib: "\<forall>c. (cell_at m0 c \<noteq> None) = in_bounds m0 c"
      unfolding well_formed_def by blast
    have e': "end' (grid s) = Some e" using e d(5) by simp
    have pb: "in_bounds m0 (coord p)" using hd(2) spec[OF ib, of "coord p"] by simp
    have pos: "bfs_position s = Some p" using b(1,2,3) Cons by (simp add: bfs_position_def)
    have ns: "get_neighboring_coordinates (grid s) = get_neighboring_coordinates m0"
      using d(2) by (rule neighbors_width)
    let ?kids = "children (grid s) e (coord p)"
    from bfs_step_expand[OF b(1) b(2) b(3) e' d(6) Cons hd(1)] obtain s' where
      st: "bfs_step s = Inr s'"
      and fin: "final_searched_cell s' =
         (if e \<in> set (get_neighboring_coordinates (grid s) (coord p))
          then Some (searched_cell e (Some p)) else final_searched_cell s)"
      and gr: "grid s' = expanded (grid s) e (coord p) (final_searched_cell s' \<noteq> None)"
      and en: "search_ended s' = (final_searched_cell s' \<noteq> None)"
      and it: "iterator s' = (if iterator s = [] then rest else tl (iterator s))"
      and nx: "next_search_frontier s' =
         (if iterator s = [] then [] else next_search_frontier s) @
         map (\<lambda>a. searched_cell a (Some p)) ?kids"
      and gate: "is_paused s' = is_paused s" "interval_code s' = interval_code s" by blast
    \<comment> \<open>the level of the processed node\<close>
    have lp: "length (chain p) = (if iterator s = [] then Suc l else l)"
    proof (cases "iterator s")
      case Nil
      then have "p \<in> set (next_search_frontier s)" using Cons by simp
      then show ?thesis using b(7) Nil by simp
    next
      case (Cons q qs)
      then have "p \<in> set (iterator s)" using \<open>iterator s @ next_search_frontier s = p # rest\<close> by simp
      then show ?thesis using b(6) Cons by auto
    qed
    have below: "hd cs \<in> set X" if "walk m0 cs" "length cs < length (chain p)" for cs
    proof (cases "length cs < l")
      case True
      then show ?thesis using b(8) that(1) by blast
    next
      case False
      then have "iterator s = []" "length cs = l" using that(2) lp by (auto split: if_splits)
      then show ?thesis using b(9) that(1) by auto
    qed
    have near: "nearest m0 p"
      unfolding nearest_def
    proof (intro allI impI)
      fix cs assume "walk m0 cs \<and> hd cs = coord p"
      then show "length (chain p) \<le> length cs" using below[of cs] hd(3) by force
    qed
    have lle: "l \<le> length (chain p)" using lp by simp
    have restF: "rest = (if iterator s = [] then rest else tl (iterator s)) @
                        (if iterator s = [] then [] else next_search_frontier s)"
      using Cons by (cases "iterator s") auto
    show ?thesis
    proof (cases "e \<in> set (get_neighboring_coordinates (grid s) (coord p))")
      case True
      then have f: "final_searched_cell s' = Some (searched_cell e (Some p))" using fin by simp
      have "walk m0 (chain p)" using d(15) by simp
      then have fb: "found_by m0 p (final_searched_cell s')"
        using f e True ns by (simp add: found_by_def)
      have "nearest_to_end m0 p"
        unfolding nearest_to_end_def
      proof (intro allI impI)
        fix cs e1
        assume a: "walk m0 cs \<and> end' m0 = Some e1 \<and> e1 \<in> set (get_neighboring_coordinates m0 (hd cs))"
        have "hd cs \<notin> set X" using d(14) a by auto
        then show "length (chain p) \<le> length cs" using below[of cs] a by force
      qed
      then have "bfs_result m0 s'" using fb by (auto simp: bfs_result_def)
      then show ?thesis using st pos hd(3) pb lle near en f by simp
    next
      case False
      then have f: "final_searched_cell s' = None" using fin b(4) by simp
      have nf: "e \<notin> set (get_neighboring_coordinates m0 (coord p))" using False ns by simp
      have g: "grid s' = expanded (grid s) e (coord p) False" using gr f by simp
      have F': "iterator s' @ next_search_frontier s' = rest @ map (\<lambda>a. searched_cell a (Some p)) ?kids"
        using it nx restF by simp
      have "search_inv m0 (expanded (grid s) e (coord p) False)
              (iterator s' @ next_search_frontier s') (X @ [coord p])"
        unfolding F' by (intro search_inv_expand[OF si e nf]) simp_all
      then have si': "search_inv m0 (grid s') (iterator s' @ next_search_frontier s') (X @ [coord p])"
        using g by simp
      have l1: "\<forall>q\<in>set (iterator s'). length (chain q) = length (chain p)"
      proof
        fix q assume q: "q \<in> set (iterator s')"
        show "length (chain q) = length (chain p)"
        proof (cases "iterator s")
          case Nil
          then have "q \<in> set (next_search_frontier s)" using q it Cons by simp
          then show ?thesis using b(7) lp Nil by auto
        next
          case (Cons r rs)
          then have "q \<in> set (iterator s)" using q it by simp
          then show ?thesis using b(6) lp Cons by auto
        qed
      qed
      have l2: "\<forall>q\<in>set (next_search_frontier s'). length (chain q) = Suc (length (chain p))"
      proof
        fix q assume q: "q \<in> set (next_search_frontier s')"
        show "length (chain q) = Suc (length (chain p))"
        proof (cases "q \<in> (\<lambda>a. searched_cell a (Some p)) ` set ?kids")
          case True
          then show ?thesis by auto
        next
          case False
          then have "iterator s \<noteq> []" "q \<in> set (next_search_frontier s)"
            using q nx by (auto split: if_splits)
          then show ?thesis using b(7) lp by simp
        qed
      qed
      have l3: "\<forall>cs. walk m0 cs \<and> length cs < length (chain p) \<longrightarrow> hd cs \<in> set (X @ [coord p])"
        using below by auto
      have l4: "\<forall>cs. walk m0 cs \<and> length cs = length (chain p) \<longrightarrow>
                  hd cs \<in> set (X @ [coord p]) \<union> coord ` set (iterator s')"
      proof (intro allI impI)
        fix cs assume a: "walk m0 cs \<and> length cs = length (chain p)"
        show "hd cs \<in> set (X @ [coord p]) \<union> coord ` set (iterator s')"
        proof (cases "iterator s")
          case (Cons r rs)
          then have rp: "r = p" using \<open>iterator s @ next_search_frontier s = p # rest\<close> by simp
          have "length cs = l" using a lp Cons by simp
          then have "hd cs \<in> set X \<union> coord ` set (iterator s)" using b(9) a by blast
          then show ?thesis using Cons rp it by auto
        next
          case Nil
          then have len: "length cs = Suc l" using a lp by simp
          have it': "iterator s' = rest" using it Nil by simp
          show ?thesis
          proof (cases cs)
            case Nil
            then show ?thesis using len by simp
          next
            case c1: (Cons c1 r1)
            show ?thesis
            proof (cases r1)
              case Nil
              then have "c1 = s0" using a c1 s0 by simp
              then show ?thesis using search_inv_start[OF si s0] c1 by auto
            next
              case (Cons u r2)
              then have w: "c1 \<in> set (get_neighboring_coordinates m0 u)" "cell_at m0 c1 = Some FLOOR"
                "walk m0 (u # r2)" using a c1 by simp_all
              have "length (u # r2) = l" using len c1 Cons by simp
              then have "hd (u # r2) \<in> set X \<union> coord ` set (iterator s)" using b(9) w(3) by blast
              then have "u \<in> set X" using \<open>iterator s = []\<close> by simp
              then have "c1 \<in> set X \<union> coord ` set (p # rest)" using d(14) w(1,2) by blast
              then show ?thesis using c1 it' by auto
            qed
          qed
        qed
      qed
      have "bfs_inv m0 s' (X @ [coord p]) (length (chain p))"
        using b(1,2) gate en f si' l1 l2 l3 l4 by (intro bfs_invI) simp_all
      then show ?thesis using st pos hd(3) pb lle near by simp
    qed
  qed
qed

lemma bfs_inv_props:
  assumes inv: "bfs_inv m0 s X l"
  shows "\<not> search_ended s \<and> distinct X \<and> (\<forall>c\<in>set X. in_bounds m0 c)"
proof -
  note b = bfs_invD[OF inv]
  note d = search_invD[OF b(5)]
  from d(1) have ib: "\<forall>c. (cell_at m0 c \<noteq> None) = in_bounds m0 c"
    and sb: "\<exists>s. start m0 = Some s \<and> in_bounds m0 s"
    unfolding well_formed_def by blast+
  have "in_bounds m0 c" if "c \<in> set X" for c
  proof -
    have "Some c = start m0 \<or> cell_at m0 c = Some FLOOR" using d(13) that by blast
    then show ?thesis using sb spec[OF ib, of c] by auto
  qed
  then show ?thesis using b(3) d(8) by simp
qed

subsection \<open>Neighbours\<close>

text \<open>
  Claim C2. For every in-bounds coordinate of a width by height grid, the neighbours are
  exactly the in-bounds 4-directional neighbours, the \<open>+y\<close> neighbour being included
  if and only if \<open>y + 1 < height\<close>. The code compares \<open>y + 1\<close> with the width: on a grid
  of width 1 and height 2 the cell \<open>(0, 0)\<close> gets no neighbour although \<open>(0, 1)\<close> is in
  bounds, and on a grid of width 2 and height 1 it gets \<open>(0, 1)\<close>, which is out of
  bounds.
\<close>

theorem C2_y_bound_is_width:
  "get_neighboring_coordinates \<lparr>height = 2, width = 1, maze = mz, start = s, end' = e\<rparr> (Coordinate 0 0) = []
   \<and> in_bounds \<lparr>height = 2, width = 1, maze = mz, start = s, end' = e\<rparr> (Coordinate 0 1)
   \<and> get_neighboring_coordinates \<lparr>height = 1, width = 2, maze = mz, start = s, end' = e\<rparr> (Coordinate 0 0)
       = [Coordinate 1 0, Coordinate 0 1]
   \<and> \<not> in_bounds \<lparr>height = 1, width = 2, maze = mz, start = s, end' = e\<rparr> (Coordinate 0 1)"
  by (simp add: get_neighboring_coordinates_def in_bounds_def)

subsection \<open>The states at construction\<close>

lemma bfs_inv_init:
  assumes wf: "well_formed m0"
  shows "bfs_inv m0 (visualize code (new_BFS paused m0)) [] 0"
proof -
  from wf obtain s where s: "start m0 = Some s" unfolding well_formed_def by blast
  have si: "search_inv m0 m0 [searched_cell s None] []" using search_inv_init[OF wf s] .
  show ?thesis
    by (rule bfs_invI) (use si s in \<open>simp_all add: visualize_def new_BFS_def walk_nonempty\<close>)
qed

lemma gbfs_inv_init:
  assumes wf: "well_formed m0"
  shows "best_first_inv m0 (visualize code (new_GBFS paused m0)) []"
proof -
  from wf obtain s e where s: "start m0 = Some s" "end' m0 = Some e"
    unfolding well_formed_def by blast
  have si: "search_inv m0 m0 [searched_cell s None] []" using search_inv_init[OF wf s(1)] .
  show ?thesis using si s by (simp add: best_first_inv_def visualize_def new_GBFS_def)
qed

lemma astar_inv_init:
  assumes wf: "well_formed m0"
  shows "best_first_inv m0 (visualize code (new_ASTAR paused m0)) []"
proof -
  from wf obtain s e where s: "start m0 = Some s" "end' m0 = Some e"
    unfolding well_formed_def by blast
  have si: "search_inv m0 m0 [searched_cell s None] []" using search_inv_init[OF wf s(1)] .
  show ?thesis using si s by (simp add: best_first_inv_def visualize_def new_ASTAR_def)
qed

lemma cell_at_mk_maze:
  "cell_at (mk_maze w h columns s e) c =
     (if 0 \<le> coord_x c \<and> coord_x c < int (length columns) \<and> 0 \<le> coord_y c \<and>
         coord_y c < int (length (columns ! nat (coord_x c)))
      then Some (columns ! nat (coord_x c) ! nat (coord_y c)) else None)"
proof (cases "0 \<le> coord_x c \<and> coord_x c < int (length columns)")
  case True
  then have "nat (coord_x c) < length columns" by auto
  then show ?thesis using True by (simp add: cell_at_def mk_maze_def array_of_def)
next
  case False
  then show ?thesis by (auto simp: cell_at_def mk_maze_def array_of_def)
qed

lemma well_formed_mk_maze:
  assumes "0 < w" "0 < h" "int (length columns) = w" "\<forall>col\<in>set columns. int (length col) = h"
    and "in_bounds (mk_maze w h columns s e) s" "in_bounds (mk_maze w h columns s e) e"
    and "cell_at (mk_maze w h columns s e) s \<noteq> Some WALL"
  shows "well_formed (mk_maze w h columns s e)"
proof -
  let ?m = "mk_maze w h columns s e"
  have wh: "width ?m = w" "height ?m = h" "start ?m = Some s" "end' ?m = Some e"
    by (simp_all add: mk_maze_def)
  have cols: "columns_ok ?m"
    unfolding columns_ok_def has_column_def using assms(3)
    by (simp add: mk_maze_def array_of_def)
  have "(cell_at ?m c \<noteq> None) = in_bounds ?m c" for c
  proof (cases "0 \<le> coord_x c \<and> coord_x c < w")
    case True
    then have "nat (coord_x c) < length columns" using assms(3) by auto
    then have "int (length (columns ! nat (coord_x c))) = h" using assms(4) by simp
    then show ?thesis using True assms(3) by (simp add: cell_at_mk_maze in_bounds_def wh)
  next
    case False
    then show ?thesis using assms(3) by (auto simp: cell_at_mk_maze in_bounds_def wh)
  qed
  then show ?thesis
    unfolding well_formed_def using assms(1,2,5,6,7) cols wh by auto
qed

subsection \<open>Termination\<close>

text \<open>
  Claim C8. On a well-formed grid, each of the three strategies, called again and again
  from its construction, reaches a state where \<^verbatim>\<open>search_ended\<close> holds; no call throws; the
  elements processed up to there have pairwise different cells, so they are at most
  \<open>width * height\<close>; and the calls are at most one more (the last call of \<^verbatim>\<open>BFS\<close> may only
  notice that both frontiers are empty).
\<close>

theorem C8_run_ends:
  assumes wf: "well_formed m0"
  shows "(\<exists>n s'. n \<le> Suc (nat (width m0 * height m0)) \<and>
            run bfs_step n (visualize code (new_BFS paused m0)) = Inr s' \<and> search_ended s' \<and>
            distinct (map coord (run_positions bfs_step bfs_position n
                                   (visualize code (new_BFS paused m0)))) \<and>
            length (run_positions bfs_step bfs_position n (visualize code (new_BFS paused m0)))
              \<le> nat (width m0 * height m0))
       \<and> (\<exists>n s'. n \<le> Suc (nat (width m0 * height m0)) \<and>
            run gbfs_step n (visualize code (new_GBFS paused m0)) = Inr s' \<and> search_ended s' \<and>
            distinct (map coord (run_positions gbfs_step best_first_position n
                                   (visualize code (new_GBFS paused m0)))) \<and>
            length (run_positions gbfs_step best_first_position n
                      (visualize code (new_GBFS paused m0)))
              \<le> nat (width m0 * height m0))
       \<and> (\<exists>n s'. n \<le> Suc (nat (width m0 * height m0)) \<and>
            run astar_step n (visualize code (new_ASTAR paused m0)) = Inr s' \<and> search_ended s' \<and>
            distinct (map coord (run_positions astar_step best_first_position n
                                   (visualize code (new_ASTAR paused m0)))) \<and>
            length (run_positions astar_step best_first_position n
                      (visualize code (new_ASTAR paused m0)))
              \<le> nat (width m0 * height m0))"
proof (intro conjI)
  let ?k = "nat (width m0 * height m0)"
  have k: "length ([]::Coordinate list) + ?k = nat (width m0 * height m0)" by simp
  have "\<exists>n s'. n \<le> Suc ?k \<and> run bfs_step n (visualize code (new_BFS paused m0)) = Inr s' \<and>
          search_ended s' \<and> bfs_result m0 s' \<and>
          distinct ([] @ map coord (run_positions bfs_step bfs_position n
                                      (visualize code (new_BFS paused m0)))) \<and>
          (\<forall>c\<in>set (map coord (run_positions bfs_step bfs_position n
                                  (visualize code (new_BFS paused m0)))). in_bounds m0 c) \<and>
          length (run_positions bfs_step bfs_position n (visualize code (new_BFS paused m0))) \<le> ?k"
  proof (rule run_terminates[where I = "\<lambda>s X. \<exists>l. bfs_inv m0 s X l" and R = "bfs_result m0"
        and ?m0.0 = m0, OF _ _ _ k])
    fix s X assume "\<exists>l. bfs_inv m0 s X l"
    then obtain l where l: "bfs_inv m0 s X l" by blast
    from bfs_step_inv[OF l]
    show "\<exists>s'. bfs_step s = Inr s' \<and>
          (case bfs_position s of None \<Rightarrow> search_ended s' \<and> bfs_result m0 s'
           | Some p \<Rightarrow> coord p \<notin> set X \<and> in_bounds m0 (coord p) \<and>
               (search_ended s' \<and> bfs_result m0 s' \<or> (\<exists>l. bfs_inv m0 s' (X @ [coord p]) l)))"
      by (cases "bfs_position s") auto
    show "\<not> search_ended s \<and> distinct X \<and> (\<forall>c\<in>set X. in_bounds m0 c)"
      using bfs_inv_props[OF l] .
  next
    show "\<exists>l. bfs_inv m0 (visualize code (new_BFS paused m0)) [] l"
      using bfs_inv_init[OF wf] by blast
  qed
  then show "\<exists>n s'. n \<le> Suc ?k \<and>
            run bfs_step n (visualize code (new_BFS paused m0)) = Inr s' \<and> search_ended s' \<and>
            distinct (map coord (run_positions bfs_step bfs_position n
                                   (visualize code (new_BFS paused m0)))) \<and>
            length (run_positions bfs_step bfs_position n (visualize code (new_BFS paused m0)))
              \<le> ?k"
    by auto
  have "\<exists>n s'. n \<le> Suc ?k \<and> run gbfs_step n (visualize code (new_GBFS paused m0)) = Inr s' \<and>
          search_ended s' \<and> search_result m0 s' \<and>
          distinct ([] @ map coord (run_positions gbfs_step best_first_position n
                                      (visualize code (new_GBFS paused m0)))) \<and>
          (\<forall>c\<in>set (map coord (run_positions gbfs_step best_first_position n
                                  (visualize code (new_GBFS paused m0)))). in_bounds m0 c) \<and>
          length (run_positions gbfs_step best_first_position n
                    (visualize code (new_GBFS paused m0))) \<le> ?k"
    by (rule run_terminates[where I = "best_first_inv m0" and R = "search_result m0"
          and ?m0.0 = m0, OF gbfs_step_inv best_first_inv_props gbfs_inv_init[OF wf] k])
  then show "\<exists>n s'. n \<le> Suc ?k \<and>
            run gbfs_step n (visualize code (new_GBFS paused m0)) = Inr s' \<and> search_ended s' \<and>
            distinct (map coord (run_positions gbfs_step best_first_position n
                                   (visualize code (new_GBFS paused m0)))) \<and>
            length (run_positions gbfs_step best_first_position n
                      (visualize code (new_GBFS paused m0))) \<le> ?k"
    by auto
  have "\<exists>n s'. n \<le> Suc ?k \<and> run astar_step n (visualize code (new_ASTAR paused m0)) = Inr s' \<and>
          search_ended s' \<and> search_result m0 s' \<and>
          distinct ([] @ map coord (run_positions astar_step best_first_position n
                                      (visualize code (new_ASTAR paused m0)))) \<and>
          (\<forall>c\<in>set (map coord (run_positions astar_step best_first_position n
                                  (visualize code (new_ASTAR paused m0)))). in_bounds m0 c) \<and>
          length (run_positions astar_step best_first_position n
                    (visualize code (new_ASTAR paused m0))) \<le> ?k"
    by (rule run_terminates[where I = "best_first_inv m0" and R = "search_result m0"
          and ?m0.0 = m0, OF astar_step_inv best_first_inv_props astar_inv_init[OF wf] k])
  then show "\<exists>n s'. n \<le> Suc ?k \<and>
            run astar_step n (visualize code (new_ASTAR paused m0)) = Inr s' \<and> search_ended s' \<and>
            distinct (map coord (run_positions astar_step best_first_position n
                                   (visualize code (new_ASTAR paused m0)))) \<and>
            length (run_positions astar_step best_first_position n
                      (visualize code (new_ASTAR paused m0))) \<le> ?k"
    by auto
qed

lemma well_formed_example: "well_formed example_grid"
  unfolding example_grid_def
  by (rule well_formed_mk_maze) (simp_all add: in_bounds_def cell_at_mk_maze, simp_all add: mk_maze_def)

theorem C8_run_ends_witness:
  "well_formed example_grid
   \<and> (\<exists>n s'. n \<le> 5 \<and> run bfs_step n (visualize 1 (new_BFS True example_grid)) = Inr s' \<and>
          search_ended s' \<and>
          length (run_positions bfs_step bfs_position n (visualize 1 (new_BFS True example_grid))) \<le> 4)
   \<and> (\<exists>n s'. n \<le> 5 \<and> run gbfs_step n (visualize 1 (new_GBFS True example_grid)) = Inr s' \<and>
          search_ended s')
   \<and> (\<exists>n s'. n \<le> 5 \<and> run astar_step n (visualize 1 (new_ASTAR True example_grid)) = Inr s' \<and>
          search_ended s')"
proof -
  have wh: "nat (width example_grid * height example_grid) = 4"
    by (simp add: example_grid_def mk_maze_def)
  have five: "\<And>n. n \<le> Suc 4 \<Longrightarrow> n \<le> 5" by simp
  note t = C8_run_ends[OF well_formed_example, of 1 True, unfolded wh]
  from t obtain n1 s1 where
    "n1 \<le> Suc 4 \<and> run bfs_step n1 (visualize 1 (new_BFS True example_grid)) = Inr s1 \<and>
     search_ended s1 \<and>
     length (run_positions bfs_step bfs_position n1 (visualize 1 (new_BFS True example_grid))) \<le> 4"
    by blast
  moreover from t obtain n2 s2 where
    "n2 \<le> Suc 4 \<and> run gbfs_step n2 (visualize 1 (new_GBFS True example_grid)) = Inr s2 \<and> search_ended s2"
    by blast
  moreover from t obtain n3 s3 where
    "n3 \<le> Suc 4 \<and> run astar_step n3 (visualize 1 (new_ASTAR True example_grid)) = Inr s3 \<and> search_ended s3"
    by blast
  ultimately show ?thesis using well_formed_example five by blast
qed

subsection \<open>The states of a cell\<close>

lemma expanded_step_change:
  assumes si: "search_inv m0 m (p # rest) X"
  shows "cell_at (expanded m e (coord p) found) (coord p) = Some EXPLORED \<and>
         (\<forall>a. step_change m (expanded m e (coord p) found) found (coord p) a)"
proof -
  note d = search_invD[OF si]
  note hd = search_inv_head_column[OF si]
  have "coord p \<notin> set (children m e (coord p))"
    using children_facts(3)[OF hd(1), of "coord p" e] by blast
  then have "cell_at (expanded m e (coord p) found) (coord p) = Some EXPLORED"
    using cell_at_expanded[OF d(6) hd(1), of e found "coord p"] by simp
  then show ?thesis using expanded_change[OF si] by blast
qed

lemma bfs_step_change:
  assumes inv: "bfs_inv m0 s X l"
  shows "final_searched_cell s = None \<and>
     (\<exists>s'. bfs_step s = Inr s' \<and>
        (case bfs_position s of
           None \<Rightarrow> grid s' = grid s
         | Some p \<Rightarrow>
             cell_at (grid s') (coord p) = Some EXPLORED \<and>
             (final_searched_cell s' \<noteq> None \<longrightarrow> search_ended s') \<and>
             (\<forall>a. step_change (grid s) (grid s') (final_searched_cell s' \<noteq> None) (coord p) a)))"
proof -
  note b = bfs_invD[OF inv]
  show ?thesis
  proof (cases "iterator s @ next_search_frontier s")
    case Nil
    then have emp: "iterator s = []" "next_search_frontier s = []" by simp_all
    have st: "bfs_step s = Inr (s\<lparr>search_ended := True\<rparr>)"
      using bfs_step_exhausted[OF b(1) b(2) emp] .
    have pos: "bfs_position s = None" using emp by (simp add: bfs_position_def)
    show ?thesis using st pos b(4) by simp
  next
    case (Cons p rest)
    have si: "search_inv m0 (grid s) (p # rest) X" using b(5) Cons by simp
    note d = search_invD[OF si]
    note hd = search_inv_head_column[OF si]
    from d(1) obtain e where e: "end' m0 = Some e" unfolding well_formed_def by blast
    have e': "end' (grid s) = Some e" using e d(5) by simp
    have pos: "bfs_position s = Some p" using b(1,2,3) Cons by (simp add: bfs_position_def)
    from bfs_step_expand[OF b(1) b(2) b(3) e' d(6) Cons hd(1)] obtain s' where
      st: "bfs_step s = Inr s'"
      and gr: "grid s' = expanded (grid s) e (coord p) (final_searched_cell s' \<noteq> None)"
      and en: "search_ended s' = (final_searched_cell s' \<noteq> None)" by blast
    show ?thesis
      using st pos b(4) en expanded_step_change[OF si, of e "final_searched_cell s' \<noteq> None"]
      unfolding gr[symmetric] by auto
  qed
qed

lemma gbfs_step_change:
  assumes inv: "best_first_inv m0 s X"
  shows "final_searched_cell s = None \<and>
     (\<exists>s'. gbfs_step s = Inr s' \<and>
        (case best_first_position s of
           None \<Rightarrow> grid s' = grid s
         | Some p \<Rightarrow>
             cell_at (grid s') (coord p) = Some EXPLORED \<and>
             (final_searched_cell s' \<noteq> None \<longrightarrow> search_ended s') \<and>
             (\<forall>a. step_change (grid s) (grid s') (final_searched_cell s' \<noteq> None) (coord p) a)))"
proof -
  from inv obtain fe rest where fr: "search_frontier s = fe # rest"
    unfolding best_first_inv_def by (cases "search_frontier s") auto
  from best_first_head[OF inv fr] obtain e where e: "end' m0 = Some e" "end' (grid s) = Some e"
    and cols: "columns_ok (grid s)" and pc: "has_column (grid s) (coord_x (coord (cell fe)))"
    and pos: "best_first_position s = Some (cell fe)"
    and si: "search_inv m0 (grid s) (cell fe # map cell rest) X" by blast
  from inv have g0: "interval_code s \<noteq> None" "\<not> is_paused s" and f0: "final_searched_cell s = None"
    unfolding best_first_inv_def by simp_all
  from gbfs_step_expand[OF g0 e(2) cols fr pc] obtain s' where st: "gbfs_step s = Inr s'"
    and gr: "grid s' = expanded (grid s) e (coord (cell fe)) (final_searched_cell s' \<noteq> None)"
    and en: "search_ended s' =
         (search_frontier s' = [] \<or> final_searched_cell s' \<noteq> None \<or> search_ended s)" by blast
  show ?thesis
    using st pos f0 en expanded_step_change[OF si, of e "final_searched_cell s' \<noteq> None"]
    unfolding gr[symmetric] by auto
qed

lemma astar_step_change:
  assumes inv: "best_first_inv m0 s X"
  shows "final_searched_cell s = None \<and>
     (\<exists>s'. astar_step s = Inr s' \<and>
        (case best_first_position s of
           None \<Rightarrow> grid s' = grid s
         | Some p \<Rightarrow>
             cell_at (grid s') (coord p) = Some EXPLORED \<and>
             (final_searched_cell s' \<noteq> None \<longrightarrow> search_ended s') \<and>
             (\<forall>a. step_change (grid s) (grid s') (final_searched_cell s' \<noteq> None) (coord p) a)))"
proof -
  from inv obtain fe rest where fr: "search_frontier s = fe # rest"
    unfolding best_first_inv_def by (cases "search_frontier s") auto
  from best_first_head[OF inv fr] obtain e where e: "end' m0 = Some e" "end' (grid s) = Some e"
    and cols: "columns_ok (grid s)" and pc: "has_column (grid s) (coord_x (coord (cell fe)))"
    and pos: "best_first_position s = Some (cell fe)"
    and si: "search_inv m0 (grid s) (cell fe # map cell rest) X" by blast
  from inv have g0: "interval_code s \<noteq> None" "\<not> is_paused s" and f0: "final_searched_cell s = None"
    unfolding best_first_inv_def by simp_all
  from astar_step_expand[OF g0 e(2) cols fr pc] obtain s' where st: "astar_step s = Inr s'"
    and gr: "grid s' = expanded (grid s) e (coord (cell fe)) (final_searched_cell s' \<noteq> None)"
    and en: "search_ended s' =
         (search_frontier s' = [] \<or> final_searched_cell s' \<noteq> None \<or> search_ended s)" by blast
  show ?thesis
    using st pos f0 en expanded_step_change[OF si, of e "final_searched_cell s' \<noteq> None"]
    unfolding gr[symmetric] by auto
qed

text \<open>
  Claim C7. Take a well-formed grid and any of the three strategies, and a state \<open>s\<close> that
  the run from the construction reaches before the end. Nothing is found yet in \<open>s\<close>. The
  next call of \<^verbatim>\<open>step\<close> returns. If it processes no element it leaves the grid as it is.
  If it processes the element \<open>p\<close>, the cell of \<open>p\<close> is \<^verbatim>\<open>EXPLORED\<close> afterwards, and every cell
  either keeps its state or moves forward along \<^verbatim>\<open>FLOOR\<close>, \<^verbatim>\<open>ACTIVE\<close>, \<^verbatim>\<open>EXPLORED\<close>, with one
  exception: in the call that finds the end, which also ends the run, a neighbour of the
  cell of \<open>p\<close> that is \<^verbatim>\<open>ACTIVE\<close> becomes \<^verbatim>\<open>FLOOR\<close>.
\<close>

theorem C7_cell_states_move_forward:
  assumes wf: "well_formed m0"
  shows "(\<forall>n s. run bfs_step n (visualize code (new_BFS paused m0)) = Inr s \<and> \<not> search_ended s \<longrightarrow>
            final_searched_cell s = None \<and>
            (\<exists>s'. bfs_step s = Inr s' \<and>
               (case bfs_position s of
                  None \<Rightarrow> grid s' = grid s
                | Some p \<Rightarrow>
                    cell_at (grid s') (coord p) = Some EXPLORED \<and>
                    (final_searched_cell s' \<noteq> None \<longrightarrow> search_ended s') \<and>
                    (\<forall>a. step_change (grid s) (grid s') (final_searched_cell s' \<noteq> None) (coord p) a))))
       \<and> (\<forall>n s. run gbfs_step n (visualize code (new_GBFS paused m0)) = Inr s \<and> \<not> search_ended s \<longrightarrow>
            final_searched_cell s = None \<and>
            (\<exists>s'. gbfs_step s = Inr s' \<and>
               (case best_first_position s of
                  None \<Rightarrow> grid s' = grid s
                | Some p \<Rightarrow>
                    cell_at (grid s') (coord p) = Some EXPLORED \<and>
                    (final_searched_cell s' \<noteq> None \<longrightarrow> search_ended s') \<and>
                    (\<forall>a. step_change (grid s) (grid s') (final_searched_cell s' \<noteq> None) (coord p) a))))
       \<and> (\<forall>n s. run astar_step n (visualize code (new_ASTAR paused m0)) = Inr s \<and> \<not> search_ended s \<longrightarrow>
            final_searched_cell s = None \<and>
            (\<exists>s'. astar_step s = Inr s' \<and>
               (case best_first_position s of
                  None \<Rightarrow> grid s' = grid s
                | Some p \<Rightarrow>
                    cell_at (grid s') (coord p) = Some EXPLORED \<and>
                    (final_searched_cell s' \<noteq> None \<longrightarrow> search_ended s') \<and>
                    (\<forall>a. step_change (grid s) (grid s') (final_searched_cell s' \<noteq> None) (coord p) a))))"
proof (intro conjI)
  show "\<forall>n s. run bfs_step n (visualize code (new_BFS paused m0)) = Inr s \<and> \<not> search_ended s \<longrightarrow>
            final_searched_cell s = None \<and>
            (\<exists>s'. bfs_step s = Inr s' \<and>
               (case bfs_position s of
                  None \<Rightarrow> grid s' = grid s
                | Some p \<Rightarrow>
                    cell_at (grid s') (coord p) = Some EXPLORED \<and>
                    (final_searched_cell s' \<noteq> None \<longrightarrow> search_ended s') \<and>
                    (\<forall>a. step_change (grid s) (grid s') (final_searched_cell s' \<noteq> None) (coord p) a)))"
  proof (intro allI impI)
  fix n and s :: BFS
  assume a: "run bfs_step n (visualize code (new_BFS paused m0)) = Inr s \<and> \<not> search_ended s"
  have "\<exists>s'. run bfs_step n (visualize code (new_BFS paused m0)) = Inr s' \<and>
          (\<not> search_ended s' \<longrightarrow> (\<exists>X'. \<exists>l. bfs_inv m0 s' X' l))"
  proof (rule run_invariant[where I = "\<lambda>s X. \<exists>l. bfs_inv m0 s X l" and R = "bfs_result m0"
        and ?m0.0 = m0 and position = bfs_position])
    fix s X assume "\<exists>l. bfs_inv m0 s X l"
    then obtain l where l: "bfs_inv m0 s X l" by blast
    from bfs_step_inv[OF l]
    show "\<exists>s'. bfs_step s = Inr s' \<and>
          (case bfs_position s of None \<Rightarrow> search_ended s' \<and> bfs_result m0 s'
           | Some p \<Rightarrow> coord p \<notin> set X \<and> in_bounds m0 (coord p) \<and>
               (search_ended s' \<and> bfs_result m0 s' \<or> (\<exists>l. bfs_inv m0 s' (X @ [coord p]) l)))"
      by (cases "bfs_position s") auto
    show "\<not> search_ended s \<and> distinct X \<and> (\<forall>c\<in>set X. in_bounds m0 c)"
      using bfs_inv_props[OF l] .
  next
    show "\<exists>l. bfs_inv m0 (visualize code (new_BFS paused m0)) [] l"
      using bfs_inv_init[OF wf] by blast
  qed
  then obtain X l where "bfs_inv m0 s X l" using a by auto
  from bfs_step_change[OF this]
  show "final_searched_cell s = None \<and>
            (\<exists>s'. bfs_step s = Inr s' \<and>
               (case bfs_position s of
                  None \<Rightarrow> grid s' = grid s
                | Some p \<Rightarrow>
                    cell_at (grid s') (coord p) = Some EXPLORED \<and>
                    (final_searched_cell s' \<noteq> None \<longrightarrow> search_ended s') \<and>
                    (\<forall>a. step_change (grid s) (grid s') (final_searched_cell s' \<noteq> None) (coord p) a)))" .
  qed
next
  show "\<forall>n s. run gbfs_step n (visualize code (new_GBFS paused m0)) = Inr s \<and> \<not> search_ended s \<longrightarrow>
            final_searched_cell s = None \<and>
            (\<exists>s'. gbfs_step s = Inr s' \<and>
               (case best_first_position s of
                  None \<Rightarrow> grid s' = grid s
                | Some p \<Rightarrow>
                    cell_at (grid s') (coord p) = Some EXPLORED \<and>
                    (final_searched_cell s' \<noteq> None \<longrightarrow> search_ended s') \<and>
                    (\<forall>a. step_change (grid s) (grid s') (final_searched_cell s' \<noteq> None) (coord p) a)))"
  proof (intro allI impI)
  fix n and s :: GBFS
  assume a: "run gbfs_step n (visualize code (new_GBFS paused m0)) = Inr s \<and> \<not> search_ended s"
  have "\<exists>s'. run gbfs_step n (visualize code (new_GBFS paused m0)) = Inr s' \<and>
          (\<not> search_ended s' \<longrightarrow> (\<exists>X'. best_first_inv m0 s' X'))"
    by (rule run_invariant[where I = "best_first_inv m0" and R = "search_result m0"
          and ?m0.0 = m0, OF gbfs_step_inv best_first_inv_props gbfs_inv_init[OF wf]])
  then obtain X where "best_first_inv m0 s X" using a by auto
  from gbfs_step_change[OF this]
  show "final_searched_cell s = None \<and>
            (\<exists>s'. gbfs_step s = Inr s' \<and>
               (case best_first_position s of
                  None \<Rightarrow> grid s' = grid s
                | Some p \<Rightarrow>
                    cell_at (grid s') (coord p) = Some EXPLORED \<and>
                    (final_searched_cell s' \<noteq> None \<longrightarrow> search_ended s') \<and>
                    (\<forall>a. step_change (grid s) (grid s') (final_searched_cell s' \<noteq> None) (coord p) a)))" .
  qed
next
  show "\<forall>n s. run astar_step n (visualize code (new_ASTAR paused m0)) = Inr s \<and> \<not> search_ended s \<longrightarrow>
            final_searched_cell s = None \<and>
            (\<exists>s'. astar_step s = Inr s' \<and>
               (case best_first_position s of
                  None \<Rightarrow> grid s' = grid s
                | Some p \<Rightarrow>
                    cell_at (grid s') (coord p) = Some EXPLORED \<and>
                    (final_searched_cell s' \<noteq> None \<longrightarrow> search_ended s') \<and>
                    (\<forall>a. step_change (grid s) (grid s') (final_searched_cell s' \<noteq> None) (coord p) a)))"
  proof (intro allI impI)
  fix n and s :: ASTAR
  assume a: "run astar_step n (visualize code (new_ASTAR paused m0)) = Inr s \<and> \<not> search_ended s"
  have "\<exists>s'. run astar_step n (visualize code (new_ASTAR paused m0)) = Inr s' \<and>
          (\<not> search_ended s' \<longrightarrow> (\<exists>X'. best_first_inv m0 s' X'))"
    by (rule run_invariant[where I = "best_first_inv m0" and R = "search_result m0"
          and ?m0.0 = m0, OF astar_step_inv best_first_inv_props astar_inv_init[OF wf]])
  then obtain X where "best_first_inv m0 s X" using a by auto
  from astar_step_change[OF this]
  show "final_searched_cell s = None \<and>
            (\<exists>s'. astar_step s = Inr s' \<and>
               (case best_first_position s of
                  None \<Rightarrow> grid s' = grid s
                | Some p \<Rightarrow>
                    cell_at (grid s') (coord p) = Some EXPLORED \<and>
                    (final_searched_cell s' \<noteq> None \<longrightarrow> search_ended s') \<and>
                    (\<forall>a. step_change (grid s) (grid s') (final_searched_cell s' \<noteq> None) (coord p) a)))" .
  qed
qed


theorem C7_cell_states_move_forward_witness:
  "well_formed example_grid
   \<and> run bfs_step 0 (visualize 1 (new_BFS True example_grid))
       = Inr (visualize 1 (new_BFS True example_grid))
   \<and> \<not> search_ended (visualize 1 (new_BFS True example_grid))
   \<and> final_searched_cell (visualize 1 (new_BFS True example_grid)) = None
   \<and> (\<exists>s'. bfs_step (visualize 1 (new_BFS True example_grid)) = Inr s' \<and>
          cell_at (grid s') (Coordinate 0 0) = Some EXPLORED \<and>
          (\<forall>a. step_change (grid (visualize 1 (new_BFS True example_grid))) (grid s')
                 (final_searched_cell s' \<noteq> None) (Coordinate 0 0) a))
   \<and> (\<exists>s'. gbfs_step (visualize 1 (new_GBFS True example_grid)) = Inr s' \<and>
          cell_at (grid s') (Coordinate 0 0) = Some EXPLORED \<and>
          (\<forall>a. step_change (grid (visualize 1 (new_GBFS True example_grid))) (grid s')
                 (final_searched_cell s' \<noteq> None) (Coordinate 0 0) a))
   \<and> (\<exists>s'. astar_step (visualize 1 (new_ASTAR True example_grid)) = Inr s' \<and>
          cell_at (grid s') (Coordinate 0 0) = Some EXPLORED \<and>
          (\<forall>a. step_change (grid (visualize 1 (new_ASTAR True example_grid))) (grid s')
                 (final_searched_cell s' \<noteq> None) (Coordinate 0 0) a))"
proof -
  let ?b = "visualize 1 (new_BFS True example_grid)"
  let ?g = "visualize 1 (new_GBFS True example_grid)"
  let ?a = "visualize 1 (new_ASTAR True example_grid)"
  note t = C7_cell_states_move_forward[OF well_formed_example, of 1 True]
  have b0: "run bfs_step 0 ?b = Inr ?b \<and> \<not> search_ended ?b"
    by (simp add: visualize_def new_BFS_def)
  have g0: "run gbfs_step 0 ?g = Inr ?g \<and> \<not> search_ended ?g"
    by (simp add: visualize_def new_GBFS_def)
  have a0: "run astar_step 0 ?a = Inr ?a \<and> \<not> search_ended ?a"
    by (simp add: visualize_def new_ASTAR_def)
  have pb: "bfs_position ?b = Some (searched_cell (Coordinate 0 0) None)"
    by (simp add: bfs_position_def visualize_def new_BFS_def example_grid_def mk_maze_def)
  have pg: "best_first_position ?g = Some (searched_cell (Coordinate 0 0) None)"
    by (simp add: best_first_position_def visualize_def new_GBFS_def example_grid_def mk_maze_def)
  have pa: "best_first_position ?a = Some (searched_cell (Coordinate 0 0) None)"
    by (simp add: best_first_position_def visualize_def new_ASTAR_def example_grid_def mk_maze_def)
  from t have "run bfs_step 0 ?b = Inr ?b \<and> \<not> search_ended ?b \<longrightarrow>
            final_searched_cell ?b = None \<and>
            (\<exists>s'. bfs_step ?b = Inr s' \<and>
               (case bfs_position ?b of
                  None \<Rightarrow> grid s' = grid ?b
                | Some p \<Rightarrow>
                    cell_at (grid s') (coord p) = Some EXPLORED \<and>
                    (final_searched_cell s' \<noteq> None \<longrightarrow> search_ended s') \<and>
                    (\<forall>a. step_change (grid ?b) (grid s') (final_searched_cell s' \<noteq> None) (coord p) a)))"
    by blast
  then have rb: "final_searched_cell ?b = None \<and>
     (\<exists>s'. bfs_step ?b = Inr s' \<and>
          cell_at (grid s') (Coordinate 0 0) = Some EXPLORED \<and>
          (\<forall>a. step_change (grid ?b) (grid s') (final_searched_cell s' \<noteq> None) (Coordinate 0 0) a))"
    using b0 unfolding pb by auto
  from t have "run gbfs_step 0 ?g = Inr ?g \<and> \<not> search_ended ?g \<longrightarrow>
            final_searched_cell ?g = None \<and>
            (\<exists>s'. gbfs_step ?g = Inr s' \<and>
               (case best_first_position ?g of
                  None \<Rightarrow> grid s' = grid ?g
                | Some p \<Rightarrow>
                    cell_at (grid s') (coord p) = Some EXPLORED \<and>
                    (final_searched_cell s' \<noteq> None \<longrightarrow> search_ended s') \<and>
                    (\<forall>a. step_change (grid ?g) (grid s') (final_searched_cell s' \<noteq> None) (coord p) a)))"
    by blast
  then have rg: "\<exists>s'. gbfs_step ?g = Inr s' \<and>
          cell_at (grid s') (Coordinate 0 0) = Some EXPLORED \<and>
          (\<forall>a. step_change (grid ?g) (grid s') (final_searched_cell s' \<noteq> None) (Coordinate 0 0) a)"
    using g0 unfolding pg by auto
  from t have "run astar_step 0 ?a = Inr ?a \<and> \<not> search_ended ?a \<longrightarrow>
            final_searched_cell ?a = None \<and>
            (\<exists>s'. astar_step ?a = Inr s' \<and>
               (case best_first_position ?a of
                  None \<Rightarrow> grid s' = grid ?a
                | Some p \<Rightarrow>
                    cell_at (grid s') (coord p) = Some EXPLORED \<and>
                    (final_searched_cell s' \<noteq> None \<longrightarrow> search_ended s') \<and>
                    (\<forall>a. step_change (grid ?a) (grid s') (final_searched_cell s' \<noteq> None) (coord p) a)))"
    by blast
  then have ra: "\<exists>s'. astar_step ?a = Inr s' \<and>
          cell_at (grid s') (Coordinate 0 0) = Some EXPLORED \<and>
          (\<forall>a. step_change (grid ?a) (grid s') (final_searched_cell s' \<noteq> None) (Coordinate 0 0) a)"
    using a0 unfolding pa by auto
  show ?thesis using well_formed_example b0 rb rg ra by (intro conjI) (simp_all del: run.simps)
qed

subsection \<open>Walks and paths\<close>

lemma walk_last: "walk m cs \<Longrightarrow> start m = Some (last cs)"
  by (induction m cs rule: walk.induct) simp_all

lemma walk_floor: "walk m cs \<Longrightarrow> c \<in> set (butlast cs) \<Longrightarrow> cell_at m c = Some FLOOR"
  by (induction m cs rule: walk.induct) (auto split: if_splits)

lemma linked_append:
  "linked (xs @ [x]) = (linked xs \<and> (xs \<noteq> [] \<longrightarrow> manhattan_distance (last xs) x = 1))"
  by (induction xs rule: linked.induct) auto

lemma walk_linked: "walk m cs \<Longrightarrow> linked (rev cs)"
proof (induction m cs rule: walk.induct)
  case (3 m c u rest)
  then have "linked (rev (u # rest))" and "manhattan_distance u c = 1"
    using neighbors_manhattan by auto
  moreover have "last (rev (u # rest)) = u" by simp
  ultimately show ?case using linked_append[of "rev (u # rest)" c] by simp
qed simp_all

lemma walk_in_bounds:
  assumes wf: "well_formed m" and w: "walk m cs" and c: "c \<in> set cs"
  shows "in_bounds m c"
proof -
  from wf have ib: "\<forall>c. (cell_at m c \<noteq> None) = in_bounds m c"
    and sb: "\<exists>s. start m = Some s \<and> in_bounds m s"
    unfolding well_formed_def by blast+
  have "cs \<noteq> []" using w by (rule walk_nonempty)
  then have "c = last cs \<or> c \<in> set (butlast cs)"
    using c by (metis Un_iff append_butlast_last_id empty_iff empty_set set_ConsD set_append)
  then show ?thesis
  proof
    assume "c = last cs"
    then show ?thesis using walk_last[OF w] sb by auto
  next
    assume "c \<in> set (butlast cs)"
    then have "cell_at m c = Some FLOOR" using walk_floor[OF w] by blast
    then show ?thesis using spec[OF ib, of c] by simp
  qed
qed

text \<open>When nothing is left in the frontier, every walk ends in an expanded cell.\<close>

lemma exhausted_walk:
  "walk m0 cs \<Longrightarrow> search_inv m0 m [] X \<Longrightarrow> X \<noteq> [] \<Longrightarrow> hd cs \<in> set X"
proof (induction m0 cs rule: walk.induct)
  case (2 m0 c)
  then show ?case using search_invD(11)[OF 2(2)] by auto
next
  case (3 m0 c u rest)
  then have "u \<in> set X" by simp
  then show ?case using search_invD(14)[OF 3(3)] 3(2) by auto
qed simp

lemma exhausted_no_walk:
  assumes ex: "exhausted m0 m" and w: "walk m0 cs" and e: "end' m0 = Some e"
  shows "e \<notin> set (get_neighboring_coordinates m0 (hd cs))"
proof -
  from ex obtain X where X: "X \<noteq> []" "search_inv m0 m [] X" unfolding exhausted_def by blast
  have "hd cs \<in> set X" using exhausted_walk[OF w X(2) X(1)] .
  then show ?thesis using search_invD(14)[OF X(2)] e by auto
qed

text \<open>
  From a path of the grid to a walk: on a grid that is at least as wide as high, 4-neighbours
  in bounds are neighbours for the code. The walk is the part of the path before its first
  visit of the end.
\<close>

lemma prefix_walk:
  assumes wf: "well_formed m" and hw: "height m \<le> width m" and e: "end' m = Some e"
  shows "pre \<noteq> [] \<Longrightarrow> start m = Some (hd pre) \<Longrightarrow> linked pre \<Longrightarrow>
         \<forall>c\<in>set pre. in_bounds m c \<Longrightarrow>
         \<forall>c\<in>set (tl pre). cell_at m c = Some FLOOR \<and> c \<noteq> e \<Longrightarrow> walk m (rev pre)"
proof (induction pre rule: rev_induct)
  case Nil
  then show ?case by simp
next
  case (snoc x xs)
  show ?case
  proof (cases "xs = []")
    case True
    then show ?thesis using snoc.prems by simp
  next
    case False
    have l: "linked xs" "manhattan_distance (last xs) x = 1"
      using snoc.prems(3) False by (simp_all add: linked_append)
    have w': "walk m (rev xs)"
      using snoc.prems False l(1) by (intro snoc.IH) (auto simp: tl_append split: list.splits)
    obtain r where r: "rev xs = last xs # r"
      using False by (cases xs rule: rev_cases) auto
    have nb: "x \<in> set (get_neighboring_coordinates m (last xs))"
      using l(2) snoc.prems(4) False by (intro manhattan_neighbors[OF _ _ _ hw]) auto
    have fl: "cell_at m x = Some FLOOR \<and> x \<noteq> e"
      using snoc.prems(5) False by (cases xs) auto
    have rv: "rev (xs @ [x]) = x # last xs # r" using r by simp
    have "walk m (x # last xs # r)" using w'[unfolded r] nb fl e by simp
    then show ?thesis unfolding rv .
  qed
qed

lemma linked_split: "linked (xs @ y # ys) \<Longrightarrow> xs \<noteq> [] \<Longrightarrow>
    linked xs \<and> manhattan_distance (last xs) y = 1"
  by (induction xs rule: linked.induct) auto

lemma grid_path_walk:
  assumes wf: "well_formed m" and hw: "height m \<le> width m" and ne: "start m \<noteq> end' m"
    and e: "end' m = Some e" and gp: "grid_path m vs"
  shows "\<exists>cs. walk m cs \<and> e \<in> set (get_neighboring_coordinates m (hd cs)) \<and>
              Suc (length cs) \<le> length vs"
proof -
  from gp have v: "vs \<noteq> []" "Some (hd vs) = start m" "Some (last vs) = end' m" "linked vs"
    "list_all (in_bounds m) vs" "list_all (\<lambda>c. cell_at m c = Some FLOOR) (butlast (tl vs))"
    unfolding grid_path_def by simp_all
  have "e \<in> set vs" using v(1,3) e by (metis last_in_set option.inject)
  then obtain pre post where sp: "vs = pre @ e # post" "e \<notin> set pre"
    by (meson split_list_first)
  have hne: "hd vs \<noteq> e" using v(2) ne e by auto
  then have pne: "pre \<noteq> []" using sp(1) by (cases pre) auto
  then have hp: "hd pre = hd vs" using sp(1) by (cases pre) auto
  have lk: "linked pre" "manhattan_distance (last pre) e = 1"
    using linked_split[of pre e post] v(4) sp(1) pne by simp_all
  have ib: "\<forall>c\<in>set pre. in_bounds m c" "in_bounds m e"
    using v(5) sp(1) by (simp_all add: list_all_iff)
  have "set (tl pre) \<subseteq> set (butlast (tl vs))"
  proof -
    have "tl vs = tl pre @ e # post" using sp(1) pne by (cases pre) auto
    then have "butlast (tl vs) = tl pre @ butlast (e # post)" by (simp add: butlast_append)
    then show ?thesis by simp
  qed
  then have fl: "\<forall>c\<in>set (tl pre). cell_at m c = Some FLOOR \<and> c \<noteq> e"
    using v(6) sp(2) by (auto simp: list_all_iff dest: list.set_sel(2)[OF pne])
  have w: "walk m (rev pre)"
    using prefix_walk[OF wf hw e pne _ lk(1) ib(1) fl] v(2) hp by simp
  have "hd (rev pre) = last pre" using pne by (simp add: hd_rev)
  moreover have "last pre \<in> set pre" using pne by simp
  ultimately have "e \<in> set (get_neighboring_coordinates m (hd (rev pre)))"
    using manhattan_neighbors[OF lk(2) _ ib(2) hw] ib(1) by simp
  moreover have "Suc (length (rev pre)) \<le> length vs" using sp(1) by simp
  ultimately show ?thesis using w by blast
qed

text \<open>From a found node to a path of the grid.\<close>

lemma found_by_grid_path:
  assumes wf: "well_formed m" and fb: "found_by m p (Some node)"
  shows "grid_path m (reconstruct node) \<and> edge_length node = length (chain p) \<and>
         length (reconstruct node) = Suc (length (chain p))"
proof -
  from fb obtain e where e: "end' m = Some e" and n: "node = searched_cell e (Some p)"
    and w: "walk m (chain p)" and a: "e \<in> set (get_neighboring_coordinates m (coord p))"
    unfolding found_by_def by auto
  let ?cs = "chain p"
  have ne: "?cs \<noteq> []" using w by (rule walk_nonempty)
  have hdc: "hd ?cs = coord p" using chain_Cons[of p] by simp
  have rc: "reconstruct node = rev ?cs @ [e]" using n by (simp add: reconstruct_def)
  from wf e have eb: "in_bounds m e" unfolding well_formed_def by auto
  have 1: "Some (hd (reconstruct node)) = start m"
    using rc ne walk_last[OF w] by (simp add: hd_rev)
  have 2: "Some (last (reconstruct node)) = end' m" using rc e by simp
  have "last (rev ?cs) = coord p" using ne hdc by (simp add: last_rev)
  then have 3: "linked (reconstruct node)"
    using walk_linked[OF w] neighbors_manhattan[OF a] ne unfolding rc
    by (simp add: linked_append)
  have 4: "list_all (in_bounds m) (reconstruct node)"
    using walk_in_bounds[OF wf w] eb unfolding rc by (simp add: list_all_iff)
  have "butlast (tl (reconstruct node)) = tl (rev ?cs)"
    using ne unfolding rc by (cases "rev ?cs") simp_all
  moreover have "set (tl (rev ?cs)) = set (butlast ?cs)"
    using ne by (cases ?cs rule: rev_cases) simp_all
  ultimately have 5: "list_all (\<lambda>c. cell_at m c = Some FLOOR) (butlast (tl (reconstruct node)))"
    using walk_floor[OF w] by (simp add: list_all_iff)
  have "edge_length node = length ?cs" using n by (simp add: edge_length_def)
  then show ?thesis using 1 2 3 4 5 rc unfolding grid_path_def by simp
qed

subsection \<open>Evaluating runs on small grids\<close>

lemmas run_simps = mk_maze_def array_of_def new_BFS_def new_GBFS_def new_ASTAR_def visualize_def
  bfs_step_def gbfs_step_def astar_step_def bind_error_def set_cell_type_def get_cell_type_def
  get_neighboring_coordinates_def coordinate_equals_def Let_def cell_at_def euclidean_distance_def
  splice_def astar_dist_def

subsection \<open>Generation\<close>

lemma floor_random_range:
  fixes r :: real and n :: int
  assumes "0 \<le> r" "r < 1" "0 < n"
  shows "0 \<le> \<lfloor>r * of_int n\<rfloor> \<and> \<lfloor>r * of_int n\<rfloor> < n"
proof -
  have "r * of_int n < of_int n" using assms by simp
  moreover have "0 \<le> r * of_int n" using assms by simp
  ultimately show ?thesis by (simp add: floor_less_iff)
qed

text \<open>
  Claim C10, as the code has it. After \<^verbatim>\<open>regenerate\<close> on a grid of positive width and
  height, whatever the random draws in \<open>[0, 1)\<close>, the start and the end are in bounds, the
  cell at the end is \<^verbatim>\<open>FLOOR\<close>, and the cell at the start is \<^verbatim>\<open>EXPLORED\<close> when start and end
  differ and \<^verbatim>\<open>FLOOR\<close> when they coincide (the end is written last); so neither is a wall.
\<close>

theorem C10_regenerate_start_end:
  assumes w: "0 < width m" and h: "0 < height m" and r: "\<forall>i. 0 \<le> rnd i \<and> rnd i < 1"
  shows "\<exists>m' s e. regenerate rnd m = Inr m' \<and> start m' = Some s \<and> end' m' = Some e
           \<and> in_bounds m' s \<and> in_bounds m' e
           \<and> cell_at m' e = Some FLOOR
           \<and> cell_at m' s = Some (if s = e then FLOOR else EXPLORED)
           \<and> cell_at m' s \<noteq> Some WALL \<and> cell_at m' e \<noteq> Some WALL"
proof -
  define s where "s = coordinate_random (rnd 0) (rnd 1) (width m) (height m)"
  define e where "e = coordinate_random (rnd 2) (rnd 3) (width m) (height m)"
  define columns where
    "columns = map (\<lambda>i. array_of (random_column rnd (4 + i * nat (height m)) (nat (height m))))
                 [0..<nat (width m)]"
  define m1 where "m1 = m\<lparr>start := Some s, end' := Some e, maze := array_of columns\<rparr>"
  have sb: "0 \<le> coord_x s \<and> coord_x s < width m \<and> 0 \<le> coord_y s \<and> coord_y s < height m"
    using floor_random_range[of "rnd 0" "width m"] floor_random_range[of "rnd 1" "height m"] w h r
    by (simp add: s_def coordinate_random_def)
  have eb: "0 \<le> coord_x e \<and> coord_x e < width m \<and> 0 \<le> coord_y e \<and> coord_y e < height m"
    using floor_random_range[of "rnd 2" "width m"] floor_random_range[of "rnd 3" "height m"] w h r
    by (simp add: e_def coordinate_random_def)
  have len: "int (length columns) = width m" using w by (simp add: columns_def)
  have c1: "has_column m1 (coord_x s)" "has_column m1 (coord_x e)"
    using sb eb len by (simp_all add: m1_def array_of_def has_column_def)
  have c2: "has_column (put m1 s EXPLORED) (coord_x e)"
    using c1 by simp
  have reg: "regenerate rnd m = Inr (put (put m1 s EXPLORED) e FLOOR)"
    unfolding regenerate_def Let_def s_def[symmetric] e_def[symmetric] columns_def[symmetric]
      m1_def[symmetric]
    using c1 c2 by (simp add: bind_error_def set_cell_type_Inr)
  have cells: "cell_at (put (put m1 s EXPLORED) e FLOOR)
                 = ((cell_at m1)(s := Some EXPLORED))(e := Some FLOOR)"
    using c1 c2 by (simp add: cell_at_put)
  show ?thesis
    apply (rule exI[of _ "put (put m1 s EXPLORED) e FLOOR"])
    apply (rule exI[of _ s], rule exI[of _ e])
    using reg cells sb eb
    by (simp add: in_bounds_def m1_def)
qed

theorem C10_regenerate_start_end_witness:
  "0 < width \<lparr>height = 2, width = 3, maze = array_of [], start = None, end' = None\<rparr>
   \<and> 0 < height \<lparr>height = 2, width = 3, maze = array_of [], start = None, end' = None\<rparr>
   \<and> (\<forall>i. 0 \<le> (\<lambda>k::nat. if k = 0 then 1/2 else (0::real)) i
          \<and> (\<lambda>k::nat. if k = 0 then 1/2 else (0::real)) i < 1)
   \<and> (\<exists>m'. regenerate (\<lambda>k. if k = 0 then 1/2 else 0)
              \<lparr>height = 2, width = 3, maze = array_of [], start = None, end' = None\<rparr> = Inr m'
           \<and> start m' = Some (Coordinate 1 0) \<and> end' m' = Some (Coordinate 0 0)
           \<and> cell_at m' (Coordinate 0 0) = Some FLOOR \<and> cell_at m' (Coordinate 1 0) = Some EXPLORED)"
proof -
  let ?m = "\<lparr>height = 2, width = 3, maze = array_of [], start = None, end' = None\<rparr>"
  let ?rnd = "\<lambda>k::nat. if k = 0 then 1/2 else (0::real)"
  have hyp: "0 < width ?m" "0 < height ?m" "\<forall>i. 0 \<le> ?rnd i \<and> ?rnd i < 1" by simp_all
  have se: "coordinate_random (?rnd 0) (?rnd 1) (width ?m) (height ?m) = (Coordinate 1 0)"
           "coordinate_random (?rnd 2) (?rnd 3) (width ?m) (height ?m) = (Coordinate 0 0)"
    by (simp_all add: coordinate_random_def)
  from C10_regenerate_start_end[OF hyp] obtain m' s e where
    r: "regenerate ?rnd ?m = Inr m'" "start m' = Some s" "end' m' = Some e"
       "cell_at m' e = Some FLOOR" "cell_at m' s = Some (if s = e then FLOOR else EXPLORED)"
    by blast
  have "start m' = Some (Coordinate 1 0) \<and> end' m' = Some (Coordinate 0 0)"
    using r(1) se
    by (auto simp: regenerate_def Let_def bind_error_def set_cell_type_def split: option.splits)
  then have "s = (Coordinate 1 0)" "e = (Coordinate 0 0)" using r(2,3) by simp_all
  then show ?thesis using r hyp by auto
qed

text \<open>
  Claim C10 as stated fails: when the two draws coincide, the start cell is \<^verbatim>\<open>FLOOR\<close>, not
  \<^verbatim>\<open>EXPLORED\<close>. With every draw 0 on a 2 by 2 grid, start and end are both \<open>(0, 0)\<close>.
\<close>

theorem C10_counterexample:
  "\<exists>m'. regenerate (\<lambda>k. 0) \<lparr>height = 2, width = 2, maze = array_of [], start = None, end' = None\<rparr>
            = Inr m'
        \<and> start m' = Some (Coordinate 0 0) \<and> end' m' = Some (Coordinate 0 0)
        \<and> cell_at m' (Coordinate 0 0) = Some FLOOR \<and> cell_at m' (Coordinate 0 0) \<noteq> Some EXPLORED"
  by (simp add: regenerate_def coordinate_random_def run_simps)

subsection \<open>The single-cell grid\<close>

text \<open>
  Claim C3, as the code has it. On the grid of one cell with start and end both \<open>(0, 0)\<close>,
  whatever the state \<open>t\<close> of the cell, no strategy finds a node: no \<^verbatim>\<open>step\<close> compares the
  cell it expands with the end, only its neighbours, and the cell has none. \<^verbatim>\<open>GBFS\<close> and
  \<^verbatim>\<open>ASTAR\<close> end the run in the first call, \<^verbatim>\<open>BFS\<close> in the second; the cell is then
  \<^verbatim>\<open>EXPLORED\<close>, no node is found, and a further call changes nothing.
\<close>

theorem C3_single_cell_exhausted:
  "(\<exists>s. bfs_step (visualize code (new_BFS paused (mk_maze 1 1 [[t]] (Coordinate 0 0) (Coordinate 0 0)))) = Inr s
        \<and> \<not> search_ended s \<and> final_searched_cell s = None)
   \<and> (\<exists>s. steps bfs_step 2 (visualize code (new_BFS paused (mk_maze 1 1 [[t]] (Coordinate 0 0) (Coordinate 0 0)))) = Inr s
        \<and> search_ended s \<and> final_searched_cell s = None
        \<and> cell_at (grid s) (Coordinate 0 0) = Some EXPLORED \<and> bfs_step s = Inr s)
   \<and> (\<exists>s. gbfs_step (visualize code (new_GBFS paused (mk_maze 1 1 [[t]] (Coordinate 0 0) (Coordinate 0 0)))) = Inr s
        \<and> search_ended s \<and> final_searched_cell s = None
        \<and> cell_at (grid s) (Coordinate 0 0) = Some EXPLORED \<and> gbfs_step s = Inr s)
   \<and> (\<exists>s. astar_step (visualize code (new_ASTAR paused (mk_maze 1 1 [[t]] (Coordinate 0 0) (Coordinate 0 0)))) = Inr s
        \<and> search_ended s \<and> final_searched_cell s = None
        \<and> cell_at (grid s) (Coordinate 0 0) = Some EXPLORED \<and> astar_step s = Inr s)"
  by (simp add: run_simps numeral_2_eq_2)

text \<open>
  Claim C3 as stated fails: on the single \<^verbatim>\<open>FLOOR\<close> cell the first call of \<^verbatim>\<open>step\<close> yields
  no found node in any strategy, and in \<^verbatim>\<open>BFS\<close> it does not end the run either.
\<close>

theorem C3_counterexample:
  "(\<exists>s. bfs_step (visualize 1 (new_BFS True (mk_maze 1 1 [[FLOOR]] (Coordinate 0 0) (Coordinate 0 0)))) = Inr s
        \<and> \<not> search_ended s \<and> final_searched_cell s = None)
   \<and> (\<exists>s. gbfs_step (visualize 1 (new_GBFS True (mk_maze 1 1 [[FLOOR]] (Coordinate 0 0) (Coordinate 0 0)))) = Inr s
        \<and> final_searched_cell s = None)
   \<and> (\<exists>s. astar_step (visualize 1 (new_ASTAR True (mk_maze 1 1 [[FLOOR]] (Coordinate 0 0) (Coordinate 0 0)))) = Inr s
        \<and> final_searched_cell s = None)"
  by (simp add: run_simps)

subsection \<open>Steps after the end\<close>

text \<open>\<^verbatim>\<open>BFS.step\<close> tests \<^verbatim>\<open>search_ended\<close> before it touches the grid.\<close>

lemma bfs_step_after_end:
  "search_ended s \<Longrightarrow> \<exists>s'. bfs_step s = Inr s' \<and> grid s' = grid s \<and> search_ended s'"
  by (cases "iterator s"; cases "next_search_frontier s") (simp_all add: bfs_step_def Let_def)

text \<open>
  Claim C4 asks that a call of \<^verbatim>\<open>step\<close> in a state where \<^verbatim>\<open>search_ended\<close> holds changes no
  cell. \<^verbatim>\<open>GBFS.step\<close> and \<^verbatim>\<open>ASTAR.step\<close> never read \<^verbatim>\<open>search_ended\<close>. On the 2 by 2 grid of
  \<^verbatim>\<open>FLOOR\<close> cells with start \<open>(0, 0)\<close> and end \<open>(0, 1)\<close>, the first call finds the end and
  ends the run with \<open>(1, 0)\<close> still in the frontier (its cell reverted to \<^verbatim>\<open>FLOOR\<close>); the
  next call expands it and marks it \<^verbatim>\<open>EXPLORED\<close>.
\<close>

theorem C4_step_after_end_changes_grid:
  "(\<exists>s1 s2. gbfs_step (visualize 1 (new_GBFS True
                 (mk_maze 2 2 [[FLOOR, FLOOR], [FLOOR, FLOOR]] (Coordinate 0 0) (Coordinate 0 1)))) = Inr s1
      \<and> search_ended s1 \<and> final_searched_cell s1 \<noteq> None \<and> cell_at (grid s1) (Coordinate 1 0) = Some FLOOR
      \<and> gbfs_step s1 = Inr s2 \<and> cell_at (grid s2) (Coordinate 1 0) = Some EXPLORED)
   \<and> (\<exists>s1 s2. astar_step (visualize 1 (new_ASTAR True
                 (mk_maze 2 2 [[FLOOR, FLOOR], [FLOOR, FLOOR]] (Coordinate 0 0) (Coordinate 0 1)))) = Inr s1
      \<and> search_ended s1 \<and> final_searched_cell s1 \<noteq> None \<and> cell_at (grid s1) (Coordinate 1 0) = Some FLOOR
      \<and> astar_step s1 = Inr s2 \<and> cell_at (grid s2) (Coordinate 1 0) = Some EXPLORED)"
  by (simp add: run_simps)

subsection \<open>The frontier of GBFS and A*\<close>

text \<open>
  Claim C5, as the code has it. A call of \<^verbatim>\<open>ASTAR.step\<close> that returns either leaves the
  frontier as it is, or removes its first element \<open>fe\<close> and inserts, for cells \<open>a\<close> among the
  neighbours of the expanded cell, the element \<open>astar_element e fe a\<close>: its \<^verbatim>\<open>length\<close> is the
  length of \<open>fe\<close> plus one, and its priority is the length of \<open>fe\<close> itself (the parent's path
  length, one less than the candidate's) plus the straight-line distance from the candidate
  to the end.
\<close>

theorem C5_astar_inserted_element:
  assumes "astar_step s = Inr s'"
  shows "search_frontier s' = search_frontier s \<or>
         (\<exists>e fe rest ds. end' (grid s) = Some e \<and> search_frontier s = fe # rest \<and>
            set ds \<subseteq> set (get_neighboring_coordinates (grid s) (coord (cell fe))) \<and>
            search_frontier s' = fold insert_by_priority (map (astar_element e fe) ds) rest \<and>
            (\<forall>a. priority (astar_element e fe a) = of_int (length_pq fe) + euclidean_distance e a \<and>
                 length_pq (astar_element e fe a) = length_pq fe + 1 \<and>
                 cell (astar_element e fe a) = searched_cell a (Some (cell fe))))"
  using astar_step_frontier[OF assms] by (auto simp: astar_element_def)

theorem C5_astar_inserted_element_witness:
  "\<exists>s'. astar_step (visualize 1 (new_ASTAR True
            (mk_maze 2 2 [[FLOOR, FLOOR], [FLOOR, FLOOR]] (Coordinate 0 0) (Coordinate 1 1)))) = Inr s'
     \<and> (search_frontier s' = search_frontier (visualize 1 (new_ASTAR True
            (mk_maze 2 2 [[FLOOR, FLOOR], [FLOOR, FLOOR]] (Coordinate 0 0) (Coordinate 1 1)))) \<or>
         (\<exists>e fe rest ds. search_frontier (visualize 1 (new_ASTAR True
            (mk_maze 2 2 [[FLOOR, FLOOR], [FLOOR, FLOOR]] (Coordinate 0 0) (Coordinate 1 1)))) = fe # rest \<and>
            search_frontier s' = fold insert_by_priority (map (astar_element e fe) ds) rest))
     \<and> map priority (search_frontier s') = [1, 1]
     \<and> map length_pq (search_frontier s') = [1, 1]"
proof -
  let ?s = "visualize 1 (new_ASTAR True (mk_maze 2 2 [[FLOOR, FLOOR], [FLOOR, FLOOR]] (Coordinate 0 0) (Coordinate 1 1)))"
  obtain s' where s': "astar_step ?s = Inr s'"
    and v: "map priority (search_frontier s') = [1, 1]" "map length_pq (search_frontier s') = [1, 1]"
    by (simp add: run_simps)
  from C5_astar_inserted_element[OF s']
  have "search_frontier s' = search_frontier ?s \<or>
         (\<exists>e fe rest ds. search_frontier ?s = fe # rest \<and>
            search_frontier s' = fold insert_by_priority (map (astar_element e fe) ds) rest)"
    by (elim disjE exE conjE) (intro disjI1, assumption, intro disjI2 exI conjI, assumption+)
  with s' v show ?thesis by (intro exI[of _ s'] conjI)
qed

text \<open>
  Claim C5 as stated fails: on the 2 by 2 grid of \<^verbatim>\<open>FLOOR\<close> cells with start \<open>(0, 0)\<close> and end
  \<open>(1, 1)\<close>, the first call inserts \<open>(1, 0)\<close> and \<open>(0, 1)\<close>, each with \<^verbatim>\<open>length\<close> 1 and at
  straight-line distance 1 from the end, with priority 1 and not \<open>1 + 1\<close>.
\<close>

theorem C5_counterexample:
  "\<exists>s'. astar_step (visualize 1 (new_ASTAR True
            (mk_maze 2 2 [[FLOOR, FLOOR], [FLOOR, FLOOR]] (Coordinate 0 0) (Coordinate 1 1)))) = Inr s'
     \<and> map (coord \<circ> cell) (search_frontier s') = [Coordinate 1 0, Coordinate 0 1]
     \<and> map length_pq (search_frontier s') = [1, 1]
     \<and> map priority (search_frontier s') = [1, 1]
     \<and> euclidean_distance (Coordinate 1 0) (Coordinate 1 1) = 1 \<and> euclidean_distance (Coordinate 0 1) (Coordinate 1 1) = 1
     \<and> (\<exists>el \<in> set (search_frontier s').
           priority el \<noteq> of_int (length_pq el) + euclidean_distance (coord (cell el)) (Coordinate 1 1))"
  by (simp add: run_simps)

text \<open>
  Claim C9. In \<^verbatim>\<open>GBFS\<close> and \<^verbatim>\<open>ASTAR\<close> the frontier is sorted by priority when the strategy is
  made, and a call of \<^verbatim>\<open>step\<close> that starts from a sorted frontier ends with a sorted one.
  Such a call leaves the frontier as it is, or removes its first element, of least priority,
  and inserts new elements one after the other into the rest; each insertion puts the
  element after all elements of priority at most its own and before the others, that is
  at the first position whose priority is strictly greater.
\<close>

theorem C9_frontier_sorted:
  fixes g g' :: GBFS and a a' :: ASTAR and el :: "'x priority_queue_element_scheme"
  shows "sorted (map priority (search_frontier (new_GBFS paused m)))
    \<and> sorted (map priority (search_frontier (new_ASTAR paused m)))
    \<and> (sorted (map priority (search_frontier g)) \<and> gbfs_step g = Inr g' \<longrightarrow>
         sorted (map priority (search_frontier g')) \<and>
         (search_frontier g' = search_frontier g \<or>
          (\<exists>fe rest els. search_frontier g = fe # rest \<and>
             (\<forall>x\<in>set (search_frontier g). priority fe \<le> priority x) \<and>
             search_frontier g' = fold insert_by_priority els rest)))
    \<and> (sorted (map priority (search_frontier a)) \<and> astar_step a = Inr a' \<longrightarrow>
         sorted (map priority (search_frontier a')) \<and>
         (search_frontier a' = search_frontier a \<or>
          (\<exists>fe rest els. search_frontier a = fe # rest \<and>
             (\<forall>x\<in>set (search_frontier a). priority fe \<le> priority x) \<and>
             search_frontier a' = fold insert_by_priority els rest)))
    \<and> insert_by_priority el xs =
         takeWhile (\<lambda>x. priority x \<le> priority el) xs @ el #
         dropWhile (\<lambda>x. priority x \<le> priority el) xs
    \<and> index_to_insert (priority el) xs = length (takeWhile (\<lambda>x. priority x \<le> priority el) xs)"
proof (intro conjI impI)
  show "sorted (map priority (search_frontier (new_GBFS paused m)))"
    by (simp add: new_GBFS_def split: option.splits)
  show "sorted (map priority (search_frontier (new_ASTAR paused m)))"
    by (simp add: new_ASTAR_def split: option.splits)
  show "insert_by_priority el xs =
         takeWhile (\<lambda>x. priority x \<le> priority el) xs @ el #
         dropWhile (\<lambda>x. priority x \<le> priority el) xs"
    by (rule insert_by_priority_position)
  show "index_to_insert (priority el) xs = length (takeWhile (\<lambda>x. priority x \<le> priority el) xs)"
    by (rule index_to_insert_takeWhile)
next
  assume h: "sorted (map priority (search_frontier g)) \<and> gbfs_step g = Inr g'"
  from gbfs_step_frontier[of g g'] h
  show "sorted (map priority (search_frontier g'))"
    by (auto simp: sorted_fold_insert)
  from gbfs_step_frontier[of g g'] h
  show "search_frontier g' = search_frontier g \<or>
          (\<exists>fe rest els. search_frontier g = fe # rest \<and>
             (\<forall>x\<in>set (search_frontier g). priority fe \<le> priority x) \<and>
             search_frontier g' = fold insert_by_priority els rest)"
    by auto
next
  assume h: "sorted (map priority (search_frontier a)) \<and> astar_step a = Inr a'"
  from astar_step_frontier[of a a'] h
  show "sorted (map priority (search_frontier a'))"
    by (auto simp: sorted_fold_insert)
  from astar_step_frontier[of a a'] h
  show "search_frontier a' = search_frontier a \<or>
          (\<exists>fe rest els. search_frontier a = fe # rest \<and>
             (\<forall>x\<in>set (search_frontier a). priority fe \<le> priority x) \<and>
             search_frontier a' = fold insert_by_priority els rest)"
    by auto
qed

theorem C9_frontier_sorted_witness:
  "\<exists>g' a'. gbfs_step (visualize 1 (new_GBFS True
               (mk_maze 2 2 [[FLOOR, FLOOR], [FLOOR, FLOOR]] (Coordinate 0 0) (Coordinate 1 1)))) = Inr g'
      \<and> astar_step (visualize 1 (new_ASTAR True
               (mk_maze 2 2 [[FLOOR, FLOOR], [FLOOR, FLOOR]] (Coordinate 0 0) (Coordinate 1 1)))) = Inr a'
      \<and> sorted (map priority (search_frontier (visualize 1 (new_GBFS True
               (mk_maze 2 2 [[FLOOR, FLOOR], [FLOOR, FLOOR]] (Coordinate 0 0) (Coordinate 1 1))))))
      \<and> sorted (map priority (search_frontier (visualize 1 (new_ASTAR True
               (mk_maze 2 2 [[FLOOR, FLOOR], [FLOOR, FLOOR]] (Coordinate 0 0) (Coordinate 1 1))))))
      \<and> sorted (map priority (search_frontier g')) \<and> length (search_frontier g') = 2
      \<and> sorted (map priority (search_frontier a')) \<and> length (search_frontier a') = 2"
proof -
  let ?m = "mk_maze 2 2 [[FLOOR, FLOOR], [FLOOR, FLOOR]] (Coordinate 0 0) (Coordinate 1 1)"
  let ?g = "visualize 1 (new_GBFS True ?m)"
  let ?a = "visualize 1 (new_ASTAR True ?m)"
  obtain g' where g': "gbfs_step ?g = Inr g'" "length (search_frontier g') = 2"
    by (simp add: run_simps)
  obtain a' where a': "astar_step ?a = Inr a'" "length (search_frontier a') = 2"
    by (simp add: run_simps)
  have s0: "sorted (map priority (search_frontier ?g))" "sorted (map priority (search_frontier ?a))"
    by (simp_all add: run_simps)
  have "sorted (map priority (search_frontier g'))"
    using C9_frontier_sorted[where g = ?g and g' = g'] s0 g' by blast
  moreover have "sorted (map priority (search_frontier a'))"
    using C9_frontier_sorted[where a = ?a and a' = a'] s0 a' by blast
  ultimately show ?thesis using g' a' s0 by blast
qed

subsection \<open>Finding a path\<close>

lemma sqrt_lower: "509/100 < sqrt 26" "223/100 < sqrt 5"
  by (rule real_less_rsqrt; simp add: power2_eq_square)+

lemma sqrt_upper: "sqrt 26 < 51/10" "sqrt 13 < 361/100" "sqrt 8 < 283/100" "sqrt 5 < 224/100"
  by (rule real_less_lsqrt; simp add: power2_eq_square)+

lemma detour_comparisons:
  "1 + sqrt 13 < sqrt 26" "2 + sqrt 8 < sqrt 26" "\<not> 3 + sqrt 5 < sqrt 26" "\<not> 6 < 3 + sqrt 5"
  using sqrt_lower sqrt_upper by simp_all

lemma well_formed_detour: "well_formed detour_grid"
  unfolding detour_grid_def
  by (rule well_formed_mk_maze) (simp_all add: in_bounds_def cell_at_mk_maze, simp_all add: mk_maze_def)

lemma grid_path_example:
  "grid_path example_grid [Coordinate 0 0, Coordinate 1 0, Coordinate 1 1]"
  by (simp add: grid_path_def example_grid_def cell_at_mk_maze in_bounds_def manhattan_distance_def,
      simp add: mk_maze_def)

text \<open>
  Claim C1, as the code has it. On a well-formed grid that is at least as wide as high, with
  start and end different and a path from the start to the end whose inner cells are
  \<^verbatim>\<open>FLOOR\<close>, the run of \<^verbatim>\<open>ASTAR\<close> ends with a found node, and the path reconstructed from it is
  such a path of the grid; its edge length is the number of its links. That this length is
  the least is not claimed.
\<close>

theorem C1_astar_finds_a_path:
  assumes wf: "well_formed m0" and hw: "height m0 \<le> width m0" and ne: "start m0 \<noteq> end' m0"
    and gp: "grid_path m0 vs"
  shows "\<exists>n s' node. n \<le> Suc (nat (width m0 * height m0)) \<and>
           run astar_step n (visualize code (new_ASTAR paused m0)) = Inr s' \<and> search_ended s' \<and>
           final_searched_cell s' = Some node \<and> grid_path m0 (reconstruct node) \<and>
           Suc (edge_length node) = length (reconstruct node)"
proof -
  let ?k = "nat (width m0 * height m0)"
  let ?init = "visualize code (new_ASTAR paused m0)"
  have k: "length ([]::Coordinate list) + ?k = nat (width m0 * height m0)" by simp
  have "\<exists>n s'. n \<le> Suc ?k \<and> run astar_step n ?init = Inr s' \<and>
          search_ended s' \<and> search_result m0 s' \<and>
          distinct ([] @ map coord (run_positions astar_step best_first_position n ?init)) \<and>
          (\<forall>c\<in>set (map coord (run_positions astar_step best_first_position n ?init)). in_bounds m0 c) \<and>
          length (run_positions astar_step best_first_position n ?init) \<le> ?k"
    by (rule run_terminates[where I = "best_first_inv m0" and R = "search_result m0"
          and ?m0.0 = m0, OF astar_step_inv best_first_inv_props astar_inv_init[OF wf] k])
  then obtain n s' where n: "n \<le> Suc ?k" and r: "run astar_step n ?init = Inr s'"
    and en: "search_ended s'" and res: "search_result m0 s'" by blast
  from wf obtain e where e: "end' m0 = Some e" unfolding well_formed_def by blast
  from grid_path_walk[OF wf hw ne e gp] obtain cs where
    cs: "walk m0 cs" "e \<in> set (get_neighboring_coordinates m0 (hd cs))" by blast
  have "\<not> exhausted m0 (grid s')" using exhausted_no_walk[OF _ cs(1) e] cs(2) by blast
  then obtain p where "found_by m0 p (final_searched_cell s')"
    using res unfolding search_result_def by blast
  moreover from this obtain node where f: "final_searched_cell s' = Some node"
    unfolding found_by_def by blast
  ultimately have "grid_path m0 (reconstruct node) \<and> Suc (edge_length node) = length (reconstruct node)"
    using found_by_grid_path[OF wf, of p node] by simp
  then show ?thesis using n r en f by blast
qed

theorem C1_astar_finds_a_path_witness:
  "well_formed example_grid \<and> height example_grid \<le> width example_grid
   \<and> start example_grid \<noteq> end' example_grid
   \<and> grid_path example_grid [Coordinate 0 0, Coordinate 1 0, Coordinate 1 1]
   \<and> (\<exists>n s' node. n \<le> Suc (nat (width example_grid * height example_grid)) \<and>
         run astar_step n (visualize 1 (new_ASTAR True example_grid)) = Inr s' \<and> search_ended s' \<and>
         final_searched_cell s' = Some node \<and> grid_path example_grid (reconstruct node) \<and>
         Suc (edge_length node) = length (reconstruct node))"
proof -
  have h: "height example_grid \<le> width example_grid" "start example_grid \<noteq> end' example_grid"
    by (simp_all add: example_grid_def mk_maze_def)
  from C1_astar_finds_a_path[OF well_formed_example h grid_path_example, of 1 True]
  show ?thesis using well_formed_example h grid_path_example by (intro conjI)
qed

text \<open>
  Claim C1 as stated fails. On \<open>detour_grid\<close> the shortest path has 11 edges, and the run of
  \<^verbatim>\<open>ASTAR\<close> ends in its 16th call with a found node whose chain has 13 edges: the cell
  \<open>(2, 2)\<close> is reached first from \<open>(2, 1)\<close>, with \<^verbatim>\<open>length\<close> 6, because \<open>(2, 1)\<close> and
  \<open>(3, 2)\<close> have the same priority 5 and \<open>(2, 1)\<close> was inserted earlier; it is \<^verbatim>\<open>ACTIVE\<close>
  when \<open>(3, 2)\<close>, of \<^verbatim>\<open>length\<close> 3, is processed, and is not inserted again. The two other
  instances: with start and end the same cell the found chain has 2 edges, not 0, and on a
  grid of width 1 and height 2 nothing is found although the end is next to the start.
\<close>

theorem C1_counterexample:
  "grid_path detour_grid detour_shortest \<and> length detour_shortest - 1 = 11
   \<and> (\<exists>s' node. run astar_step 16 (visualize 1 (new_ASTAR True detour_grid)) = Inr s' \<and>
         search_ended s' \<and> final_searched_cell s' = Some node \<and> edge_length node = 13)
   \<and> grid_path (mk_maze 2 2 [[FLOOR, FLOOR], [FLOOR, FLOOR]] (Coordinate 0 0) (Coordinate 0 0))
        [Coordinate 0 0]
   \<and> (\<exists>s' node. run astar_step 2 (visualize 1 (new_ASTAR True
           (mk_maze 2 2 [[FLOOR, FLOOR], [FLOOR, FLOOR]] (Coordinate 0 0) (Coordinate 0 0)))) = Inr s' \<and>
         search_ended s' \<and> final_searched_cell s' = Some node \<and> edge_length node = 2)
   \<and> grid_path (mk_maze 1 2 [[FLOOR, FLOOR]] (Coordinate 0 0) (Coordinate 0 1))
        [Coordinate 0 0, Coordinate 0 1]
   \<and> (\<exists>s'. run astar_step 1 (visualize 1 (new_ASTAR True
           (mk_maze 1 2 [[FLOOR, FLOOR]] (Coordinate 0 0) (Coordinate 0 1)))) = Inr s' \<and>
         search_ended s' \<and> final_searched_cell s' = None)"
proof (intro conjI)
  show "grid_path detour_grid detour_shortest"
    by (simp add: grid_path_def detour_grid_def detour_shortest_def cell_at_mk_maze in_bounds_def
          manhattan_distance_def, simp add: mk_maze_def)
  show "length detour_shortest - 1 = 11" by (simp add: detour_shortest_def)
  show "\<exists>s' node. run astar_step 16 (visualize 1 (new_ASTAR True detour_grid)) = Inr s' \<and>
         search_ended s' \<and> final_searched_cell s' = Some node \<and> edge_length node = 13"
    by (simp add: detour_grid_def run_simps detour_comparisons eval_nat_numeral edge_length_def)
  show "grid_path (mk_maze 2 2 [[FLOOR, FLOOR], [FLOOR, FLOOR]] (Coordinate 0 0) (Coordinate 0 0))
        [Coordinate 0 0]"
    by (simp add: grid_path_def cell_at_mk_maze in_bounds_def, simp add: mk_maze_def)
  show "\<exists>s' node. run astar_step 2 (visualize 1 (new_ASTAR True
           (mk_maze 2 2 [[FLOOR, FLOOR], [FLOOR, FLOOR]] (Coordinate 0 0) (Coordinate 0 0)))) = Inr s' \<and>
         search_ended s' \<and> final_searched_cell s' = Some node \<and> edge_length node = 2"
    by (simp add: run_simps eval_nat_numeral edge_length_def)
  show "grid_path (mk_maze 1 2 [[FLOOR, FLOOR]] (Coordinate 0 0) (Coordinate 0 1))
        [Coordinate 0 0, Coordinate 0 1]"
    by (simp add: grid_path_def cell_at_mk_maze in_bounds_def manhattan_distance_def,
        simp add: mk_maze_def)
  show "\<exists>s'. run astar_step 1 (visualize 1 (new_ASTAR True
           (mk_maze 1 2 [[FLOOR, FLOOR]] (Coordinate 0 0) (Coordinate 0 1)))) = Inr s' \<and>
         search_ended s' \<and> final_searched_cell s' = None"
    by (simp add: run_simps)
qed

subsection \<open>Breadth-first search finds a shortest path\<close>








end
